theory Spec2Isabelle
  imports Main "HOL-Library.Word"
begin

unbundle bit_operations_syntax

section \<open>Errors\<close>

text \<open>
  Every error value, panic and early return of the Go code is a value of one type.
  \<open>Err msg\<close> stands for \<open>errors.New(msg)\<close> and \<open>fmt.Errorf\<close>, \<open>Panic msg\<close> for a
  \<open>panic\<close>; the other constructors are the package-level error variables the code
  compares against (\<open>io.EOF\<close>, \<open>dag.ErrNotFound\<close>, \<open>ErrNoSuch\<close>, ...).
\<close>

type_synonym byte = "8 word"
datatype error =
    EOF
  | ErrIsDir
  | ErrUnrecognizedType
  | ErrInvalidDirLocation
  | ErrMalformed
  | ErrNotFound
  | ErrIsDirectory
  | ErrNoSuch
  | Err string
  | Panic string

section \<open>The Merkle DAG and the UnixFS payload\<close>

text \<open>
  Modelled from the spec: the packages \<open>merkledag\<close>, \<open>unixfs\<close> and \<open>unixfs/pb\<close> (the node
  type, its links, the DAGService and the protobuf codec) are imported by the code and are
  not part of the sources at hand. The spec describes a DAG node as an immutable
  content-addressed object with a byte payload and an ordered list of named links, equal
  by content hash, and the payload as \<open>{kind, inline_data, chunk_sizes[], total_filesize}\<close>
  with the kinds Raw, Directory, File and Metadata.

  A node is therefore a value: a link holds its target node itself (the content address of
  a node is the node), and the payload holds the decoded protobuf message; \<open>None\<close> is a
  payload that does not unmarshal and \<open>Data_Unknown\<close> a tag outside the four kinds.
  \<open>filesize\<close> and \<open>blocksizes\<close> are \<open>uint64\<close> in the wire format.
\<close>

datatype DataType = Data_Raw | Data_Directory | Data_File | Data_Metadata | Data_Unknown

record pbdata =
  pb_Type :: DataType
  pb_Data :: "byte list"
  pb_Filesize :: "64 word"
  pb_Blocksizes :: "64 word list"

datatype node = Node (node_Data: "pbdata option") (node_Links: "(string \<times> node) list")

text \<open>
  Modelled from the spec: the DAGService capability (\<open>Add\<close>, \<open>Get\<close>, and the in-link-order
  prefetch \<open>GetDAG\<close>). The service is the set of nodes it holds; fetching a node it does not
  hold fails with \<open>ErrNotFound\<close>. A write can fail with an I/O error, which \<open>add_err\<close>
  decides; a successful \<open>Add\<close> is idempotent. A promise of \<open>GetDAG\<close> is the result its
  \<open>Get()\<close> will deliver.
\<close>

record dagservice =
  blocks :: "node set"
  add_err :: "node \<Rightarrow> error option"

definition Get :: "dagservice \<Rightarrow> node \<Rightarrow> error + node" where
  "Get serv nd = (if nd \<in> blocks serv then Inr nd else Inl ErrNotFound)"

definition GetDAG :: "dagservice \<Rightarrow> node \<Rightarrow> (error + node) list" where
  "GetDAG serv n = map (\<lambda>(nm, t). Get serv t) (node_Links n)"

section \<open>The chunked file reader (unixfs/io/dagreader.go)\<close>

text \<open>
  Modelled from the spec: the byte cursor over inline bytes. The code uses Go's
  \<open>bytes.Reader\<close> (standard library) wrapped in \<open>readSeekNopCloser\<close>: the bytes \<open>s\<close> and the
  read index \<open>i\<close>. \<open>Read\<close> at or past the end returns \<open>(0, io.EOF)\<close>, otherwise it copies
  \<open>min(len(b), len(s) - i)\<close> bytes with a nil error; \<open>Seek\<close> accepts every non-negative
  position, also one past the end. \<open>Close\<close> does nothing.
\<close>

record bytes_reader =
  br_s :: "byte list"
  br_i :: nat

text \<open>
  The struct \<open>DagReader\<close>. Its buffer \<open>buf\<close> is a \<open>ReadSeekCloser\<close>: a byte cursor or a child
  \<open>DagReader\<close>. A promise is stored as the result of its \<open>Get()\<close>. The context and its
  cancel function are left out. \<open>offset\<close> is an \<open>int64\<close>.
\<close>

datatype dagreader =
  DagReader (dr_serv: dagservice) (dr_node: node) (dr_pbdata: pbdata) (dr_buf: readseekcloser)
    (dr_promises: "(error + node) list") (dr_linkPosition: nat) (dr_offset: "64 word")
and readseekcloser = RSNC bytes_reader | SubReader dagreader

definition NewRSNCFromBytes :: "byte list \<Rightarrow> readseekcloser" where
  "NewRSNCFromBytes b = RSNC \<lparr>br_s = b, br_i = 0\<rparr>"

definition newDataFileReader :: "dagservice \<Rightarrow> node \<Rightarrow> pbdata \<Rightarrow> dagreader" where
  "newDataFileReader serv n pb =
     DagReader serv n pb (NewRSNCFromBytes (pb_Data pb)) (GetDAG serv n) 0 0"

text \<open>
  \<open>NewDagReader\<close>. The recursion on the child of a Metadata node ends because the child is a
  proper part of the node.
\<close>

function NewDagReader :: "dagservice \<Rightarrow> node \<Rightarrow> error + dagreader" where
  "NewDagReader serv n =
     (case node_Data n of
        None \<Rightarrow> Inl ErrMalformed
      | Some pb \<Rightarrow>
          (case pb_Type pb of
             Data_Directory \<Rightarrow> Inl ErrIsDir
           | Data_Raw \<Rightarrow> Inr (newDataFileReader serv n pb)
           | Data_File \<Rightarrow> Inr (newDataFileReader serv n pb)
           | Data_Metadata \<Rightarrow>
               (case node_Links n of
                  [] \<Rightarrow> Inl (Err ''incorrectly formatted metadata object'')
                | l # _ \<Rightarrow>
                    (case Get serv (snd l) of
                       Inl e \<Rightarrow> Inl e
                     | Inr child \<Rightarrow> NewDagReader serv child))
           | Data_Unknown \<Rightarrow> Inl ErrUnrecognizedType))"
  by pat_completeness auto
termination
proof (relation "measure (\<lambda>(serv, n). size n)")
  show "wf (measure (\<lambda>(serv, n). size n))" by simp
next
  fix serv :: dagservice and n :: node and pb l ls child
  assume "node_Links n = l # ls" and "Get serv (snd l) = Inr child"
  then have "child = snd l" and "l \<in> set (node_Links n)"
    by (auto simp: Get_def split: if_splits)
  then show "((serv, child), (serv, n)) \<in> measure (\<lambda>(serv, n). size n)"
    by (cases n; cases l) (auto simp: less_Suc_eq_le intro!: size_list_estimation')
qed

text \<open>
  \<open>precalcNextBuf\<close>: closes the buffer (no effect on a byte cursor), then loads the node of the
  next promise. \<open>linkPosition\<close> is incremented before the payload is decoded, so the error
  branches after the fetch return the incremented position.
\<close>

definition precalcNextBuf :: "dagreader \<Rightarrow> error option \<times> dagreader" where
  "precalcNextBuf dr =
     (case dr of DagReader serv nd pb bf ps lp off \<Rightarrow>
        if lp \<ge> length ps then (Some EOF, dr)
        else (case ps ! lp of
                Inl e \<Rightarrow> (Some e, dr)
              | Inr nxt \<Rightarrow>
                  (case node_Data nxt of
                     None \<Rightarrow> (Some ErrMalformed, DagReader serv nd pb bf ps (lp + 1) off)
                   | Some npb \<Rightarrow>
                       (case pb_Type npb of
                          Data_Directory \<Rightarrow>
                            (Some ErrInvalidDirLocation, DagReader serv nd pb bf ps (lp + 1) off)
                        | Data_File \<Rightarrow>
                            (None, DagReader serv nd pb (SubReader (newDataFileReader serv nxt npb))
                                     ps (lp + 1) off)
                        | Data_Raw \<Rightarrow>
                            (None, DagReader serv nd pb (NewRSNCFromBytes (pb_Data npb)) ps (lp + 1) off)
                        | Data_Metadata \<Rightarrow>
                            (Some (Err ''Shouldnt have had metadata object inside file''),
                             DagReader serv nd pb bf ps (lp + 1) off)
                        | Data_Unknown \<Rightarrow>
                            (Some ErrUnrecognizedType, DagReader serv nd pb bf ps (lp + 1) off)))))"

definition bytes_Read :: "bytes_reader \<Rightarrow> nat \<Rightarrow> (byte list \<times> error option) \<times> bytes_reader" where
  "bytes_Read r n =
     (if br_i r \<ge> length (br_s r) then (([], Some EOF), r)
      else (let bs = take n (drop (br_i r) (br_s r))
            in ((bs, None), r\<lparr>br_i := br_i r + length bs\<rparr>)))"

text \<open>The constants \<open>os.SEEK_SET\<close>, \<open>os.SEEK_CUR\<close> and \<open>os.SEEK_END\<close>.\<close>

definition SEEK_SET :: int where "SEEK_SET = 0"
definition SEEK_CUR :: int where "SEEK_CUR = 1"
definition SEEK_END :: int where "SEEK_END = 2"

definition bytes_Seek :: "bytes_reader \<Rightarrow> 64 word \<Rightarrow> int \<Rightarrow> (64 word \<times> error option) \<times> bytes_reader" where
  "bytes_Seek r offset whence =
     (if whence \<noteq> SEEK_SET \<and> whence \<noteq> SEEK_CUR \<and> whence \<noteq> SEEK_END
      then ((0, Some (Err ''bytes.Reader.Seek: invalid whence'')), r)
      else (let abs = (if whence = SEEK_SET then offset
                       else if whence = SEEK_CUR then word_of_nat (br_i r) + offset
                       else word_of_nat (length (br_s r)) + offset)
            in if abs <s 0 then ((0, Some (Err ''bytes.Reader.Seek: negative position'')), r)
               else ((abs, None), r\<lparr>br_i := nat (sint abs)\<rparr>)))"

text \<open>
  Termination measures. \<open>wn\<close> weighs a node by its tree of links; a reader is weighed by the
  promises it has still to open (for \<open>Read\<close>) or by all its promises (for \<open>Seek\<close>, which can
  move \<open>linkPosition\<close> backwards). A reader opened on the node of a promise weighs less than
  the promise.
\<close>

fun wn :: "node \<Rightarrow> nat" where
  "wn (Node d ls) = 2 + sum_list (map (\<lambda>(nm, t). wn t) ls)"

definition wp :: "error + node \<Rightarrow> nat" where
  "wp p = (case p of Inl e \<Rightarrow> 0 | Inr n \<Rightarrow> wn n)"

primrec read_measure :: "dagreader \<Rightarrow> nat" and buf_measure :: "readseekcloser \<Rightarrow> nat" where
  "read_measure (DagReader serv nd pb bf ps lp off) = buf_measure bf + sum_list (map wp (drop lp ps))"
| "buf_measure (RSNC r) = 0"
| "buf_measure (SubReader c) = Suc (read_measure c)"

definition seek_measure :: "dagreader \<Rightarrow> nat" where
  "seek_measure dr = sum_list (map wp (dr_promises dr))"

lemma wp_Get_le: "wp (Get serv t) \<le> wn t"
  by (simp add: wp_def Get_def)

lemma wp_GetDAG_le: "sum_list (map wp (GetDAG serv n)) + 2 \<le> wn n"
proof -
  have "sum_list (map wp (map (\<lambda>(nm, t). Get serv t) ls)) \<le> sum_list (map (\<lambda>(nm, t). wn t) ls)" for ls
    by (induction ls) (auto simp: wp_Get_le add_mono)
  then show ?thesis
    by (cases n) (simp add: GetDAG_def)
qed

lemma sum_wp_drop:
  assumes "lp < length ps"
  shows "sum_list (map wp (drop lp ps)) = wp (ps ! lp) + sum_list (map wp (drop (Suc lp) ps))"
  using assms by (simp flip: Cons_nth_drop_Suc)

lemma precalcNextBuf_measure:
  assumes "precalcNextBuf (DagReader serv nd pb bf ps lp off) = (None, dr2)"
  shows "read_measure dr2 < sum_list (map wp (drop lp ps))"
proof -
  from assms have lt: "lp < length ps"
    by (auto simp: precalcNextBuf_def split: if_splits)
  from assms lt obtain nxt npb where nxt: "ps ! lp = Inr nxt" "node_Data nxt = Some npb"
    by (auto simp: precalcNextBuf_def split: sum.splits option.splits)
  have w: "wp (ps ! lp) = wn nxt"
    by (simp add: nxt wp_def)
  have "read_measure dr2 < wn nxt + sum_list (map wp (drop (Suc lp) ps))"
    using assms lt nxt wp_GetDAG_le [of serv nxt]
    by (auto simp: precalcNextBuf_def newDataFileReader_def NewRSNCFromBytes_def
        split: DataType.splits)
  then show ?thesis
    by (simp add: sum_wp_drop [OF lt] w)
qed

text \<open>
  \<open>DagReader.Read\<close>. \<open>Read_loop dr lenb acc\<close> is the \<open>for\<close> loop with \<open>len(b) = lenb\<close> and the
  bytes copied so far in \<open>acc\<close> (\<open>total = length acc\<close>); it returns the bytes written to \<open>b\<close>,
  the error and the reader. The buffer's own \<open>Read\<close> is the byte cursor's or, for a child
  reader, a nested call of the loop on \<open>b[total:]\<close>.
\<close>

function Read_loop :: "dagreader \<Rightarrow> nat \<Rightarrow> byte list \<Rightarrow> (byte list \<times> error option) \<times> dagreader" where
  "Read_loop (DagReader serv nd pb bf ps lp off) lenb acc =
     (let (res, bf') =
            (case bf of
               RSNC r \<Rightarrow> (let (res, r') = bytes_Read r (lenb - length acc) in (res, RSNC r'))
             | SubReader c \<Rightarrow>
                 (let (res, c') = Read_loop c (lenb - length acc) [] in (res, SubReader c')));
          total = acc @ fst res;
          err = snd res;
          dr1 = DagReader serv nd pb bf' ps lp (off + word_of_nat (length (fst res)))
      in if err \<noteq> None \<and> err \<noteq> Some EOF then ((total, err), dr1)
         else if length total = lenb then ((total, None), dr1)
         else (case precalcNextBuf dr1 of
                 (Some e, dr2) \<Rightarrow> ((total, Some e), dr2)
               | (None, dr2) \<Rightarrow> Read_loop dr2 lenb total))"
  by pat_completeness auto
termination
proof (relation "measure (\<lambda>(dr, lenb, acc). read_measure dr)")
  show "wf (measure (\<lambda>(dr, lenb, acc). read_measure dr))" by simp
next
  fix serv nd pb bf ps lp off and lenb :: nat and acc :: "byte list" and c
  assume "bf = SubReader c"
  then show "((c, lenb - length acc, []), (DagReader serv nd pb bf ps lp off, lenb, acc))
      \<in> measure (\<lambda>(dr, lenb, acc). read_measure dr)"
    by simp
next
  fix serv nd pb bf ps lp off and lenb :: nat and acc total :: "byte list"
    and res :: "byte list \<times> error option" and bf' dr1 e dr2
  assume "dr1 = DagReader serv nd pb bf' ps lp (off + word_of_nat (length (fst res)))"
    and "(e, dr2) = precalcNextBuf dr1" and "e = None"
  then have "precalcNextBuf (DagReader serv nd pb bf' ps lp (off + word_of_nat (length (fst res))))
      = (None, dr2)"
    by simp
  from precalcNextBuf_measure [OF this]
  show "((dr2, lenb, total), (DagReader serv nd pb bf ps lp off, lenb, acc))
      \<in> measure (\<lambda>(dr, lenb, acc). read_measure dr)"
    by simp
qed

definition Read :: "dagreader \<Rightarrow> nat \<Rightarrow> (byte list \<times> error option) \<times> dagreader" where
  "Read dr lenb = Read_loop dr lenb []"

text \<open>
  The loop of \<open>Seek\<close> over \<open>pb.Blocksizes\<close>: \<open>seek_links S i left lp\<close> returns the link position
  and what is left to seek. \<open>Blocksizes[i] > uint64(left)\<close> is the unsigned order of 64-bit
  words, and \<open>left -= int64(Blocksizes[i])\<close> their subtraction. When no block is larger than
  what is left, \<open>linkPosition\<close> keeps its old value \<open>lp\<close>.
\<close>

function seek_links :: "64 word list \<Rightarrow> nat \<Rightarrow> 64 word \<Rightarrow> nat \<Rightarrow> nat \<times> 64 word" where
  "seek_links S i left lp =
     (if i < length S then
        (if S ! i > left then (i, left)
         else seek_links S (Suc i) (left - S ! i) lp)
      else (lp, left))"
  by pat_completeness auto
termination
  by (relation "measure (\<lambda>(S, i, left, lp). length S - i)") auto

lemma precalcNextBuf_seek_measure:
  assumes "precalcNextBuf (DagReader serv nd pb bf ps lp off) = (None, DagReader serv2 nd2 pb2 (SubReader c) ps2 lp2 off2)"
  shows "seek_measure c < sum_list (map wp ps)"
proof -
  from assms have lt: "lp < length ps"
    by (auto simp: precalcNextBuf_def split: if_splits)
  from assms lt obtain nxt npb where nxt: "ps ! lp = Inr nxt" "node_Data nxt = Some npb"
    by (auto simp: precalcNextBuf_def split: sum.splits option.splits)
  have "ps ! lp \<in> set ps"
    using lt by simp
  then have "wp (ps ! lp) \<le> sum_list (map wp ps)"
    by (simp add: member_le_sum_list)
  then have w: "wn nxt \<le> sum_list (map wp ps)"
    by (simp add: nxt wp_def)
  have "seek_measure c < wn nxt"
    using assms lt nxt wp_GetDAG_le [of serv nxt]
    by (auto simp: precalcNextBuf_def newDataFileReader_def NewRSNCFromBytes_def seek_measure_def
        split: DataType.splits)
  with w show ?thesis by simp
qed

text \<open>
  \<open>DagReader.Seek\<close>. The result is the pair the Go function returns, the position and the
  error. \<open>offset < 0\<close> and \<open>int64(len(pb.Data)) >= offset\<close> are signed comparisons; the sums
  and differences of \<open>SEEK_CUR\<close> and \<open>SEEK_END\<close> wrap around as \<open>int64\<close> does.
\<close>

function Seek :: "dagreader \<Rightarrow> 64 word \<Rightarrow> int \<Rightarrow> (64 word \<times> error option) \<times> dagreader" where
  "Seek (DagReader serv nd pb bf ps lp off) offset whence =
     (if whence = SEEK_SET then
        (if offset <s 0 then ((- 1, Some (Err ''Invalid offset'')), DagReader serv nd pb bf ps lp off)
         else if sint offset \<le> int (length (pb_Data pb)) then
           ((offset, None),
            DagReader serv nd pb (NewRSNCFromBytes (drop (nat (sint offset)) (pb_Data pb))) ps 0 offset)
         else
           (let left = offset - word_of_nat (length (pb_Data pb));
                (lp', left') = seek_links (pb_Blocksizes pb) 0 left lp
            in case precalcNextBuf (DagReader serv nd pb bf ps lp' off) of
                 (Some e, dr2) \<Rightarrow> ((0, Some e), dr2)
               | (None, DagReader serv2 nd2 pb2 bf2 ps2 lp2 off2) \<Rightarrow>
                   (let (res, bf3) =
                          (case bf2 of
                             RSNC r \<Rightarrow> (let (res, r') = bytes_Seek r left' SEEK_SET in (res, RSNC r'))
                           | SubReader c \<Rightarrow> (let (res, c') = Seek c left' SEEK_SET in (res, SubReader c')))
                    in case snd res of
                         Some e \<Rightarrow> ((- 1, Some e), DagReader serv2 nd2 pb2 bf3 ps2 lp2 off2)
                       | None \<Rightarrow>
                           if left' - fst res \<noteq> 0
                           then ((- 1, Some (Err ''failed to seek properly'')),
                                 DagReader serv2 nd2 pb2 bf3 ps2 lp2 off2)
                           else ((offset, None), DagReader serv2 nd2 pb2 bf3 ps2 lp2 offset))))
      else if whence = SEEK_CUR then Seek (DagReader serv nd pb bf ps lp off) (off + offset) SEEK_SET
      else if whence = SEEK_END then
        Seek (DagReader serv nd pb bf ps lp off) (pb_Filesize pb - offset) SEEK_SET
      else ((0, Some (Err ''invalid whence'')), DagReader serv nd pb bf ps lp off))"
  by pat_completeness auto
termination
proof (relation "measure (\<lambda>(dr, offset, whence). 2 * seek_measure dr + (if whence = SEEK_SET then 0 else 1))")
  show "wf (measure (\<lambda>(dr, offset :: 64 word, whence).
      2 * seek_measure dr + (if whence = SEEK_SET then 0 else 1)))"
    by simp
next
  fix serv nd pb bf ps lp off and offset left' :: "64 word" and whence :: int
    and lp' e dr2 serv2 nd2 pb2 bf2 ps2 lp2 off2 c
  assume "whence = SEEK_SET"
    and "(e, dr2) = precalcNextBuf (DagReader serv nd pb bf ps lp' off)"
    and "e = None" and "dr2 = DagReader serv2 nd2 pb2 bf2 ps2 lp2 off2" and "bf2 = SubReader c"
  then have "precalcNextBuf (DagReader serv nd pb bf ps lp' off)
      = (None, DagReader serv2 nd2 pb2 (SubReader c) ps2 lp2 off2)"
    by simp
  from precalcNextBuf_seek_measure [OF this] \<open>whence = SEEK_SET\<close>
  show "((c, left', SEEK_SET), (DagReader serv nd pb bf ps lp off, offset, whence))
      \<in> measure (\<lambda>(dr, offset, whence). 2 * seek_measure dr + (if whence = SEEK_SET then 0 else 1))"
    by (simp add: seek_measure_def)
next
  fix serv nd pb bf ps lp off and offset :: "64 word" and whence :: int
  assume "whence \<noteq> SEEK_SET"
  then show "((DagReader serv nd pb bf ps lp off, off + offset, SEEK_SET),
        (DagReader serv nd pb bf ps lp off, offset, whence))
      \<in> measure (\<lambda>(dr, offset, whence). 2 * seek_measure dr + (if whence = SEEK_SET then 0 else 1))"
    by simp
next
  fix serv nd pb bf ps lp off and offset :: "64 word" and whence :: int
  assume "whence \<noteq> SEEK_SET"
  then show "((DagReader serv nd pb bf ps lp off, pb_Filesize pb - offset, SEEK_SET),
        (DagReader serv nd pb bf ps lp off, offset, whence))
      \<in> measure (\<lambda>(dr, offset, whence). 2 * seek_measure dr + (if whence = SEEK_SET then 0 else 1))"
    by simp
qed

section \<open>The directory overlay (ipnsfs/dir.go)\<close>

text \<open>
  Overlay objects live in a heap and are named by addresses. The field \<open>parent\<close> of a
  \<open>Directory\<close> or a file is set once, in \<open>NewDirectory\<close> or \<open>NewFile\<close>, and never assigned
  again, so the address of an object records it: an object allocated with parent \<open>p\<close> gets
  the address \<open>k # p\<close> for a fresh \<open>k\<close>, and \<open>parent (k # p) = p\<close>. The address \<open>[]\<close> is the
  parent of a root directory. The field \<open>dserv\<close> is the same service in every object and is
  kept once, in the heap; the field \<open>ref\<close> is never used.

  Modelled from the spec: the file overlay (\<open>ipnsfs/file.go\<close>: \<open>NewFile\<close>, \<open>withMode\<close>,
  \<open>file.GetNode\<close>) is not part of the sources at hand. The spec gives it the attributes
  \<open>dag_node\<close>, \<open>name\<close>, \<open>parent\<close> and \<open>dserv\<close>, \<open>GetNode\<close> returning the current node and
  \<open>withMode\<close> a view of the file in the requested mode; it names no failure of \<open>NewFile\<close>.
\<close>

type_synonym addr = "nat list"

record Directory =
  d_node :: node
  d_name :: string
  d_childDirs :: "string \<rightharpoonup> addr"
  d_files :: "string \<rightharpoonup> addr"

record file_t =
  f_node :: node
  f_name :: string

record heap =
  h_dserv :: dagservice
  h_dirs :: "addr \<rightharpoonup> Directory"
  h_files :: "addr \<rightharpoonup> file_t"
  h_next :: nat

datatype fsnode = DirNode addr | FileNode addr

datatype filehandle = FileHandle (fh_file: addr) (fh_mode: int)

text \<open>The constant \<open>os.O_CREATE\<close> (\<open>syscall.O_CREAT\<close>, \<open>0x40\<close> on Linux).\<close>

definition O_CREATE :: int where "O_CREATE = 0x40"

definition dserv_Add :: "dagservice \<Rightarrow> node \<Rightarrow> error + dagservice" where
  "dserv_Add serv nd =
     (case add_err serv nd of
        Some e \<Rightarrow> Inl e
      | None \<Rightarrow> Inr (serv\<lparr>blocks := insert nd (blocks serv)\<rparr>))"

text \<open>
  Modelled from the spec: \<open>Node.RemoveNodeLink\<close> and \<open>Node.AddNodeLinkClean\<close> of the package
  \<open>merkledag\<close>. Removing a link fails with \<open>ErrNotFound\<close> when no link has the name; a clean
  link is installed by removing any prior link of the same name and adding the new one at
  the end. The names of the links of a directory node are distinct, so at most one link
  is removed. The spec names no failure of \<open>AddNodeLinkClean\<close>. The Go methods update the
  node in place; here they return the new node and the caller stores it.
\<close>

definition RemoveNodeLink :: "string \<Rightarrow> node \<Rightarrow> error + node" where
  "RemoveNodeLink name n =
     (case map_of (node_Links n) name of
        None \<Rightarrow> Inl ErrNotFound
      | Some t \<Rightarrow> Inr (Node (node_Data n) (filter (\<lambda>l. fst l \<noteq> name) (node_Links n))))"

definition AddNodeLinkClean :: "string \<Rightarrow> node \<Rightarrow> node \<Rightarrow> error + node" where
  "AddNodeLinkClean name that n =
     Inr (Node (node_Data n) (filter (\<lambda>l. fst l \<noteq> name) (node_Links n) @ [(name, that)]))"

text \<open>
  Modelled from the spec: \<open>ft.FilePBData\<close>, \<open>ft.FolderPBData\<close> and \<open>ft.FromBytes\<close> of the
  package \<open>unixfs\<close>: the payload of a file with the given inline bytes and size, the payload
  of an empty directory, and the decoder.
\<close>

definition FilePBData :: "byte list \<Rightarrow> 64 word \<Rightarrow> pbdata option" where
  "FilePBData bs sz = Some \<lparr>pb_Type = Data_File, pb_Data = bs, pb_Filesize = sz, pb_Blocksizes = []\<rparr>"

definition FolderPBData :: "pbdata option" where
  "FolderPBData = Some \<lparr>pb_Type = Data_Directory, pb_Data = [], pb_Filesize = 0, pb_Blocksizes = []\<rparr>"

definition FromBytes :: "pbdata option \<Rightarrow> error + pbdata" where
  "FromBytes d = (case d of None \<Rightarrow> Inl ErrMalformed | Some pb \<Rightarrow> Inr pb)"

definition NewDirectory :: "heap \<Rightarrow> string \<Rightarrow> node \<Rightarrow> addr \<Rightarrow> addr \<times> heap" where
  "NewDirectory h name nd parent =
     (let a = h_next h # parent
      in (a, h\<lparr>h_dirs := (h_dirs h)(a \<mapsto>
                  \<lparr>d_node = nd, d_name = name, d_childDirs = Map.empty, d_files = Map.empty\<rparr>),
                h_next := Suc (h_next h)\<rparr>))"

definition NewFile :: "heap \<Rightarrow> string \<Rightarrow> node \<Rightarrow> addr \<Rightarrow> (error + addr) \<times> heap" where
  "NewFile h name nd parent =
     (let a = h_next h # parent
      in (Inr a, h\<lparr>h_files := (h_files h)(a \<mapsto> \<lparr>f_node = nd, f_name = name\<rparr>),
                    h_next := Suc (h_next h)\<rparr>))"

definition withMode :: "addr \<Rightarrow> int \<Rightarrow> filehandle" where
  "withMode fi mode = FileHandle fi mode"

definition parent :: "addr \<Rightarrow> addr" where
  "parent d = tl d"

definition map_dir :: "heap \<Rightarrow> addr \<Rightarrow> (Directory \<Rightarrow> Directory) \<Rightarrow> heap" where
  "map_dir h d f = h\<lparr>h_dirs := (\<lambda>a. if a = d then map_option f (h_dirs h a) else h_dirs h a)\<rparr>"

definition map_file :: "heap \<Rightarrow> addr \<Rightarrow> (file_t \<Rightarrow> file_t) \<Rightarrow> heap" where
  "map_file h a f = h\<lparr>h_files := (\<lambda>b. if b = a then map_option f (h_files h b) else h_files h b)\<rparr>"

definition nil_deref :: error where
  "nil_deref = Panic ''invalid memory address or nil pointer dereference''"

text \<open>
  A panic is not an error value of Go: it unwinds the callers. Here it is the value
  \<open>Panic msg\<close>, and every caller that inspects the error of a call hands a panic on as it is
  before it looks at anything else.
\<close>

definition is_panic :: "error \<Rightarrow> bool" where
  "is_panic e = (case e of Panic msg \<Rightarrow> True | _ \<Rightarrow> False)"

text \<open>
  \<open>childFile\<close>, \<open>childDir\<close> and \<open>Child\<close>. The loop over \<open>d.node.Links\<close> returns in every branch
  at the first link of the name, which is \<open>map_of\<close> on the list of links. Every operation
  returns the heap it leaves behind, also when it fails. A receiver that is not allocated
  is a nil pointer dereference.
\<close>

definition childFile :: "heap \<Rightarrow> addr \<Rightarrow> string \<Rightarrow> (error + addr) \<times> heap" where
  "childFile h d name =
     (case h_dirs h d of
        None \<Rightarrow> (Inl nil_deref, h)
      | Some D \<Rightarrow>
          (case d_files D name of
             Some fi \<Rightarrow> (Inr fi, h)
           | None \<Rightarrow>
               (case map_of (node_Links (d_node D)) name of
                  None \<Rightarrow> (Inl ErrNoSuch, h)
                | Some t \<Rightarrow>
                    (case Get (h_dserv h) t of
                       Inl e \<Rightarrow> (Inl e, h)
                     | Inr nd \<Rightarrow>
                         (case FromBytes (node_Data nd) of
                            Inl e \<Rightarrow> (Inl e, h)
                          | Inr i \<Rightarrow>
                              (case pb_Type i of
                                 Data_Directory \<Rightarrow> (Inl ErrIsDirectory, h)
                               | Data_File \<Rightarrow>
                                   (case NewFile h name nd d of
                                      (Inl e, h1) \<Rightarrow> (Inl e, h1)
                                    | (Inr nfi, h1) \<Rightarrow>
                                        (Inr nfi,
                                         map_dir h1 d (\<lambda>D. D\<lparr>d_files := (d_files D)(name \<mapsto> nfi)\<rparr>)))
                               | Data_Metadata \<Rightarrow> (Inl (Panic ''NOT YET IMPLEMENTED''), h)
                               | Data_Raw \<Rightarrow> (Inl (Panic ''NO!''), h)
                               | Data_Unknown \<Rightarrow> (Inl (Panic ''NO!''), h)))))))"

definition childDir :: "heap \<Rightarrow> addr \<Rightarrow> string \<Rightarrow> (error + addr) \<times> heap" where
  "childDir h d name =
     (case h_dirs h d of
        None \<Rightarrow> (Inl nil_deref, h)
      | Some D \<Rightarrow>
          (case d_childDirs D name of
             Some dir \<Rightarrow> (Inr dir, h)
           | None \<Rightarrow>
               (case map_of (node_Links (d_node D)) name of
                  None \<Rightarrow> (Inl ErrNoSuch, h)
                | Some t \<Rightarrow>
                    (case Get (h_dserv h) t of
                       Inl e \<Rightarrow> (Inl e, h)
                     | Inr nd \<Rightarrow>
                         (case FromBytes (node_Data nd) of
                            Inl e \<Rightarrow> (Inl e, h)
                          | Inr i \<Rightarrow>
                              (case pb_Type i of
                                 Data_Directory \<Rightarrow>
                                   (case NewDirectory h name nd d of
                                      (ndir, h1) \<Rightarrow>
                                        (Inr ndir,
                                         map_dir h1 d (\<lambda>D. D\<lparr>d_childDirs := (d_childDirs D)(name \<mapsto> ndir)\<rparr>)))
                               | Data_File \<Rightarrow> (Inl (Err (name @ '' is not a directory'')), h)
                               | Data_Metadata \<Rightarrow> (Inl (Panic ''NOT YET IMPLEMENTED''), h)
                               | Data_Raw \<Rightarrow> (Inl (Panic ''NO!''), h)
                               | Data_Unknown \<Rightarrow> (Inl (Panic ''NO!''), h)))))))"

definition Child :: "heap \<Rightarrow> addr \<Rightarrow> string \<Rightarrow> (error + fsnode) \<times> heap" where
  "Child h d name =
     (case childDir h d name of
        (Inr dir, h1) \<Rightarrow> (Inr (DirNode dir), h1)
      | (Inl e, h1) \<Rightarrow>
          if is_panic e then (Inl e, h1)
          else (case childFile h1 d name of
                  (Inr fi, h2) \<Rightarrow> (Inr (FileNode fi), h2)
                | (Inl e', h2) \<Rightarrow> if is_panic e' then (Inl e', h2) else (Inl ErrNoSuch, h2)))"

definition GetNode :: "heap \<Rightarrow> fsnode \<Rightarrow> error + node" where
  "GetNode h x =
     (case x of
        DirNode a \<Rightarrow> (case h_dirs h a of None \<Rightarrow> Inl nil_deref | Some D \<Rightarrow> Inr (d_node D))
      | FileNode a \<Rightarrow> (case h_files h a of None \<Rightarrow> Inl nil_deref | Some F \<Rightarrow> Inr (f_node F)))"

text \<open>
  \<open>closeChild\<close>, the upward close. Modelled from the spec: the parent of a root directory is a
  sink whose \<open>closeChild\<close> does nothing and succeeds (first equation). The second equation
  is \<open>Directory.closeChild\<close>; its last call is on the parent, which the address gives.
\<close>

fun closeChild :: "heap \<Rightarrow> addr \<Rightarrow> string \<Rightarrow> error option \<times> heap" where
  "closeChild h [] name = (None, h)"
| "closeChild h (k # p) name =
     (case Child h (k # p) name of
        (Inl e, h1) \<Rightarrow> (Some e, h1)
      | (Inr child, h1) \<Rightarrow>
          (case GetNode h1 child of
             Inl e \<Rightarrow> (Some e, h1)
           | Inr nd \<Rightarrow>
               (case dserv_Add (h_dserv h1) nd of
                  Inl e \<Rightarrow> (Some e, h1)
                | Inr serv' \<Rightarrow>
                    (let h2 = h1\<lparr>h_dserv := serv'\<rparr>
                     in case h_dirs h2 (k # p) of
                          None \<Rightarrow> (Some nil_deref, h2)
                        | Some D \<Rightarrow>
                            (let (err, n1) = (case RemoveNodeLink name (d_node D) of
                                                Inl e \<Rightarrow> (Some e, d_node D)
                                              | Inr n' \<Rightarrow> (None, n'));
                                 h3 = map_dir h2 (k # p) (\<lambda>D. D\<lparr>d_node := n1\<rparr>)
                             in if err \<noteq> None \<and> err \<noteq> Some ErrNotFound then (err, h3)
                                else (case AddNodeLinkClean name nd n1 of
                                        Inl e \<Rightarrow> (Some e, h3)
                                      | Inr n2 \<Rightarrow>
                                          closeChild (map_dir h3 (k # p) (\<lambda>D. D\<lparr>d_node := n2\<rparr>))
                                            p (d_name D)))))))"

text \<open>
  \<open>Open\<close>. The test of the create bit is the code's \<open>mode|os.O_CREATE != 0\<close>, with Go's
  precedence: \<open>(mode | os.O_CREATE) != 0\<close>.
\<close>

fun Open :: "heap \<Rightarrow> addr \<Rightarrow> string list \<Rightarrow> int \<Rightarrow> (error + filehandle) \<times> heap" where
  "Open h d [] mode = (Inl ErrIsDirectory, h)"
| "Open h d [p] mode =
     (case childFile h d p of
        (Inr fi, h1) \<Rightarrow> (Inr (withMode fi mode), h1)
      | (Inl e, h1) \<Rightarrow>
          if is_panic e then (Inl e, h1)
          else if mode OR O_CREATE \<noteq> 0 then
            (let fnode = Node (FilePBData [] 0) []
             in case NewFile h1 p fnode d of
                  (Inl e, h2) \<Rightarrow> (Inl e, h2)
                | (Inr nfi, h2) \<Rightarrow>
                    (Inr (withMode nfi mode),
                     map_dir h2 d (\<lambda>D. D\<lparr>d_files := (d_files D)(p \<mapsto> nfi)\<rparr>)))
          else (Inl ErrNoSuch, h1))"
| "Open h d (p # rest) mode =
     (case childDir h d p of
        (Inl e, h1) \<Rightarrow> (Inl e, h1)
      | (Inr dir, h1) \<Rightarrow> Open h1 dir rest mode)"

definition List :: "heap \<Rightarrow> addr \<Rightarrow> error + string list" where
  "List h d =
     (case h_dirs h d of
        None \<Rightarrow> Inl nil_deref
      | Some D \<Rightarrow> Inr (map fst (node_Links (d_node D))))"


definition Unlink :: "heap \<Rightarrow> addr \<Rightarrow> string \<Rightarrow> error option \<times> heap" where
  "Unlink h d name =
     (case h_dirs h d of
        None \<Rightarrow> (Some nil_deref, h)
      | Some D \<Rightarrow>
          (let h1 = map_dir h d (\<lambda>D. D\<lparr>d_childDirs := (d_childDirs D)(name := None),
                                            d_files := (d_files D)(name := None)\<rparr>)
           in case RemoveNodeLink name (d_node D) of
                Inl e \<Rightarrow> (Some e, h1)
              | Inr n1 \<Rightarrow>
                  closeChild (map_dir h1 d (\<lambda>D. D\<lparr>d_node := n1\<rparr>)) (parent d) (d_name D)))"

definition RenameEntry :: "heap \<Rightarrow> addr \<Rightarrow> string \<Rightarrow> string \<Rightarrow> error option \<times> heap" where
  "RenameEntry h d oldname newname =
     (case childDir h d oldname of
        (Inr dir, h1) \<Rightarrow>
          (let h2 = map_dir h1 dir (\<lambda>C. C\<lparr>d_name := newname\<rparr>)
           in case h_dirs h2 d of
                None \<Rightarrow> (Some nil_deref, h2)
              | Some D \<Rightarrow>
                  (case RemoveNodeLink oldname (d_node D) of
                     Inl e \<Rightarrow> (Some e, h2)
                   | Inr n1 \<Rightarrow>
                       (let h3 = map_dir h2 d (\<lambda>D. D\<lparr>d_node := n1\<rparr>)
                        in case h_dirs h3 dir of
                             None \<Rightarrow> (Some nil_deref, h3)
                           | Some C \<Rightarrow>
                               (case AddNodeLinkClean newname (d_node C) n1 of
                                  Inl e \<Rightarrow> (Some e, h3)
                                | Inr n2 \<Rightarrow>
                                    (let h4 = map_dir h3 d
                                           (\<lambda>D. D\<lparr>d_node := n2,
                                                   d_childDirs := ((d_childDirs D)(oldname := None))
                                                                    (newname \<mapsto> dir)\<rparr>)
                                     in case h_dirs h4 d of
                                          None \<Rightarrow> (Some nil_deref, h4)
                                        | Some D4 \<Rightarrow> closeChild h4 (parent d) (d_name D4))))))
      | (Inl e, h1) \<Rightarrow>
          if is_panic e then (Some e, h1)
          else
          (case childFile h1 d oldname of
             (Inr fi, h1') \<Rightarrow>
               (let h2 = map_file h1' fi (\<lambda>F. F\<lparr>f_name := newname\<rparr>)
                in case h_dirs h2 d of
                     None \<Rightarrow> (Some nil_deref, h2)
                   | Some D \<Rightarrow>
                       (case RemoveNodeLink oldname (d_node D) of
                          Inl e \<Rightarrow> (Some e, h2)
                        | Inr n1 \<Rightarrow>
                            (let h3 = map_dir h2 d (\<lambda>D. D\<lparr>d_node := n1\<rparr>)
                             in case h_files h3 fi of
                                  None \<Rightarrow> (Some nil_deref, h3)
                                | Some F \<Rightarrow>
                                    (case AddNodeLinkClean newname (f_node F) n1 of
                                       Inl e \<Rightarrow> (Some e, h3)
                                     | Inr n2 \<Rightarrow>
                                         (let h4 = map_dir h3 d
                                                (\<lambda>D. D\<lparr>d_node := n2,
                                                        d_childDirs := (d_childDirs D)(oldname := None),
                                                        d_files := (d_files D)(newname \<mapsto> fi)\<rparr>)
                                          in closeChild h4 (parent d) (d_name D))))))
           | (Inl e', h1') \<Rightarrow> if is_panic e' then (Some e', h1') else (Some ErrNoSuch, h1')))"


section \<open>Notions of the specification\<close>

subsection \<open>Reading a file\<close>

text \<open>
  The bytes of a file node as the reader delivers them: the inline bytes, then the bytes of
  each chunk in link order, where a Raw chunk gives its inline bytes and a File chunk its
  own bytes, recursively. \<open>readable\<close> says that a chunk and all the chunks below it can be
  opened: it is Raw, or it is File and its children are in the service and readable.
\<close>

fun file_bytes :: "node \<Rightarrow> byte list" where
  "file_bytes (Node d ls) =
     (case d of
        None \<Rightarrow> []
      | Some pb \<Rightarrow>
          pb_Data pb @
          concat (map (\<lambda>(nm, c).
                    case node_Data c of
                      None \<Rightarrow> []
                    | Some cpb \<Rightarrow>
                        if pb_Type cpb = Data_Raw then pb_Data cpb
                        else if pb_Type cpb = Data_File then file_bytes c
                        else []) ls))"

definition chunk_bytes :: "node \<Rightarrow> byte list" where
  "chunk_bytes c =
     (case node_Data c of
        None \<Rightarrow> []
      | Some cpb \<Rightarrow>
          if pb_Type cpb = Data_Raw then pb_Data cpb
          else if pb_Type cpb = Data_File then file_bytes c
          else [])"

fun readable :: "dagservice \<Rightarrow> node \<Rightarrow> bool" where
  "readable serv (Node d ls) =
     (case d of
        None \<Rightarrow> False
      | Some pb \<Rightarrow>
          pb_Type pb = Data_Raw \<or>
          (pb_Type pb = Data_File \<and> (\<forall>(nm, c) \<in> set ls. c \<in> blocks serv \<and> readable serv c)))"

text \<open>
  A well-formed file node: its kind is File or Raw, it has one link per chunk size, its
  \<open>filesize\<close> is the inline length plus the sum of the chunk sizes (as numbers, with no
  wrap-around), and each chunk is in the service and carries its declared bytes: a Raw
  chunk has that many inline bytes, a File chunk has that \<open>filesize\<close> and is well-formed.
\<close>

lemma size_link_target: "l \<in> set ls \<Longrightarrow> size (snd l) < size (Node d ls)"
  by (induction ls) (auto simp: size_prod_simp)

function wf_file :: "dagservice \<Rightarrow> node \<Rightarrow> bool" where
  "wf_file serv (Node d ls) =
     (case d of
        None \<Rightarrow> False
      | Some pb \<Rightarrow>
          (pb_Type pb = Data_File \<or> pb_Type pb = Data_Raw) \<and>
          length ls = length (pb_Blocksizes pb) \<and>
          unat (pb_Filesize pb) = length (pb_Data pb) + sum_list (map unat (pb_Blocksizes pb)) \<and>
          (\<forall>(l, s) \<in> set (zip ls (pb_Blocksizes pb)).
             snd l \<in> blocks serv \<and>
             (case node_Data (snd l) of
                None \<Rightarrow> False
              | Some cpb \<Rightarrow>
                  (pb_Type cpb = Data_Raw \<and> length (pb_Data cpb) = unat s) \<or>
                  (pb_Type cpb = Data_File \<and> pb_Filesize cpb = s \<and> wf_file serv (snd l)))))"
  by pat_completeness auto
termination
proof (relation "measure (\<lambda>(serv, n). size n)")
  show "wf (measure (\<lambda>(serv, n). size n))" by simp
next
  fix serv :: dagservice and d and ls :: "(string \<times> node) list" and pb :: pbdata
    and x and l :: "string \<times> node" and s :: "64 word"
  assume "x \<in> set (zip ls (pb_Blocksizes pb))" and "(l, s) = x"
  then have "l \<in> set ls"
    by (auto dest: set_zip_leftD)
  then show "((serv, snd l), (serv, Node d ls)) \<in> measure (\<lambda>(serv, n). size n)"
    using size_link_target [of l ls d] by simp
qed

text \<open>
  What a reader has still to deliver, and the readers all of whose pending promises are
  readable chunks. Both follow the structure of the reader: its buffer, then its promises
  from \<open>linkPosition\<close> on.
\<close>

primrec remaining :: "dagreader \<Rightarrow> byte list" and remaining_buf :: "readseekcloser \<Rightarrow> byte list" where
  "remaining (DagReader serv nd pb bf ps lp off) =
     remaining_buf bf @ concat (map (\<lambda>p. case p of Inl e \<Rightarrow> [] | Inr n \<Rightarrow> chunk_bytes n) (drop lp ps))"
| "remaining_buf (RSNC r) = drop (br_i r) (br_s r)"
| "remaining_buf (SubReader c) = remaining c"

primrec good :: "dagreader \<Rightarrow> bool" and good_buf :: "readseekcloser \<Rightarrow> bool" where
  "good (DagReader serv nd pb bf ps lp off) =
     (good_buf bf \<and> (\<forall>p \<in> set (drop lp ps). case p of Inl e \<Rightarrow> False | Inr n \<Rightarrow> readable serv n))"
| "good_buf (RSNC r) = True"
| "good_buf (SubReader c) = good c"

text \<open>
  A client that calls \<open>Read\<close> until it gets an error, the \<open>k\<close>-th call with a buffer of
  \<open>sz k\<close> bytes, and returns all the bytes with that error. With an empty buffer \<open>Read\<close>
  returns \<open>(0, nil)\<close> for ever, so the client need not return: \<open>None\<close>.
\<close>

partial_function (option) read_until_eof ::
    "dagreader \<Rightarrow> (nat \<Rightarrow> nat) \<Rightarrow> nat \<Rightarrow> byte list \<Rightarrow> (byte list \<times> error) option" where
  "read_until_eof dr sz k acc =
     (case Read dr (sz k) of
        ((bs, Some e), dr') \<Rightarrow> Some (acc @ bs, e)
      | ((bs, None), dr') \<Rightarrow> read_until_eof dr' sz (Suc k) (acc @ bs))"

subsection \<open>Seeking\<close>


definition cum :: "64 word list \<Rightarrow> nat \<Rightarrow> nat" where
  "cum S k = sum_list (map unat (take k S))"

definition chosen :: "64 word list \<Rightarrow> 64 word \<Rightarrow> nat \<Rightarrow> bool" where
  "chosen S R j \<longleftrightarrow>
     j < length S \<and> (\<forall>k < j. \<not> R - sum_list (take k S) < S ! k) \<and> R - sum_list (take j S) < S ! j"

text \<open>
  \<open>reader_on serv N pb dr\<close>: \<open>dr\<close> is a reader on the node \<open>N\<close> with the payload \<open>pb\<close>, in any
  state. The fields \<open>serv\<close>, \<open>node\<close>, \<open>pbdata\<close> and \<open>promises\<close> are set by \<open>newDataFileReader\<close>
  and no method assigns them again; the buffer, \<open>linkPosition\<close> and \<open>offset\<close> are whatever the
  reads and seeks so far have left.
\<close>

definition reader_on :: "dagservice \<Rightarrow> node \<Rightarrow> pbdata \<Rightarrow> dagreader \<Rightarrow> bool" where
  "reader_on serv N pb dr \<longleftrightarrow>
     dr_serv dr = serv \<and> dr_node dr = N \<and> dr_pbdata dr = pb \<and> dr_promises dr = GetDAG serv N"

subsection \<open>Opening a reader\<close>

definition is_Metadata :: "node \<Rightarrow> bool" where
  "is_Metadata n \<longleftrightarrow> (case node_Data n of None \<Rightarrow> False | Some pb \<Rightarrow> pb_Type pb = Data_Metadata)"

subsection \<open>The overlay\<close>

text \<open>
  \<open>absent D name\<close>: the name is in neither cache of the directory and its node has no link
  of that name. \<open>relink n nd old\<close> is the node \<open>old\<close> with any link named \<open>n\<close> removed and a
  clean link from \<open>n\<close> to \<open>nd\<close> installed: what \<open>RemoveNodeLink\<close> followed by
  \<open>AddNodeLinkClean\<close> makes of it.
\<close>

definition absent :: "Directory \<Rightarrow> string \<Rightarrow> bool" where
  "absent D name \<longleftrightarrow>
     d_childDirs D name = None \<and> d_files D name = None \<and> map_of (node_Links (d_node D)) name = None"

definition relink :: "string \<Rightarrow> node \<Rightarrow> node \<Rightarrow> node" where
  "relink n nd old = Node (node_Data old) (filter (\<lambda>l. fst l \<noteq> n) (node_Links old) @ [(n, nd)])"

text \<open>
  The invariant of the overlay. A directory object is fine when its node is a Directory
  node, every name in its directory cache is allocated and linked to a Directory node, and
  no name in its file cache is linked to a Directory node. A heap is fine when every
  directory object is and no file object holds a Directory node.
\<close>

definition is_dir_node :: "node \<Rightarrow> bool" where
  "is_dir_node t \<longleftrightarrow> (case node_Data t of None \<Rightarrow> False | Some pb \<Rightarrow> pb_Type pb = Data_Directory)"

definition dir_ok :: "heap \<Rightarrow> Directory \<Rightarrow> bool" where
  "dir_ok h D \<longleftrightarrow>
     is_dir_node (d_node D) \<and>
     (\<forall>n a. d_childDirs D n = Some a \<longrightarrow>
        h_dirs h a \<noteq> None \<and>
        (\<exists>t. map_of (node_Links (d_node D)) n = Some t \<and> is_dir_node t)) \<and>
     (\<forall>n a t. d_files D n = Some a \<longrightarrow> map_of (node_Links (d_node D)) n = Some t \<longrightarrow>
        \<not> is_dir_node t)"

definition overlay_inv :: "heap \<Rightarrow> bool" where
  "overlay_inv h \<longleftrightarrow>
     (\<forall>a D. h_dirs h a = Some D \<longrightarrow> dir_ok h D) \<and>
     (\<forall>a F. h_files h a = Some F \<longrightarrow> \<not> is_dir_node (f_node F))"





section \<open>Example objects\<close>

text \<open>
  A directory node with the links \<open>a\<close> (an empty directory) and \<open>x\<close> (a file holding two
  bytes), a service holding both children, and a heap with one root directory at the
  address \<open>[0]\<close> whose parent is the sink. \<open>ex_heap_c\<close> is \<open>ex_heap\<close> after a file \<open>c\<close> has
  been created by \<open>Open\<close>.
\<close>

definition ex_file :: node where
  "ex_file = Node (FilePBData [104, 105] 2) []"

definition ex_dir :: node where
  "ex_dir = Node FolderPBData []"

definition ex_root :: node where
  "ex_root = Node FolderPBData [(''a'', ex_dir), (''x'', ex_file)]"

definition ex_serv :: dagservice where
  "ex_serv = \<lparr>blocks = {ex_dir, ex_file}, add_err = (\<lambda>nd. None)\<rparr>"

definition ex_heap :: heap where
  "ex_heap = \<lparr>h_dserv = ex_serv,
     h_dirs = [[0] \<mapsto> \<lparr>d_node = ex_root, d_name = ''root'', d_childDirs = Map.empty,
                         d_files = Map.empty\<rparr>],
     h_files = Map.empty, h_next = 1\<rparr>"

definition ex_heap_c :: heap where
  "ex_heap_c = \<lparr>h_dserv = ex_serv,
     h_dirs = [[0] \<mapsto> \<lparr>d_node = ex_root, d_name = ''root'', d_childDirs = Map.empty,
                         d_files = [''c'' \<mapsto> [1, 0]]\<rparr>],
     h_files = [[1, 0] \<mapsto> \<lparr>f_node = Node (FilePBData [] 0) [], f_name = ''c''\<rparr>],
     h_next = 2\<rparr>"

text \<open>
  A file of eleven bytes in three Raw chunks of the sizes 4, 4 and 3 with no inline bytes, a
  Metadata node with two links, the first to that file, and a service holding them.
\<close>

definition ex_raw1 :: node where
  "ex_raw1 = Node (Some \<lparr>pb_Type = Data_Raw, pb_Data = [1, 2, 3, 4], pb_Filesize = 4, pb_Blocksizes = []\<rparr>) []"

definition ex_raw2 :: node where
  "ex_raw2 = Node (Some \<lparr>pb_Type = Data_Raw, pb_Data = [5, 6, 7, 8], pb_Filesize = 4, pb_Blocksizes = []\<rparr>) []"

definition ex_raw3 :: node where
  "ex_raw3 = Node (Some \<lparr>pb_Type = Data_Raw, pb_Data = [9, 10, 11], pb_Filesize = 3, pb_Blocksizes = []\<rparr>) []"

definition ex_chunked_pb :: pbdata where
  "ex_chunked_pb = \<lparr>pb_Type = Data_File, pb_Data = [], pb_Filesize = 11, pb_Blocksizes = [4, 4, 3]\<rparr>"

definition ex_chunked :: node where
  "ex_chunked = Node (Some ex_chunked_pb) [([], ex_raw1), ([], ex_raw2), ([], ex_raw3)]"

definition ex_meta2 :: node where
  "ex_meta2 = Node (Some \<lparr>pb_Type = Data_Metadata, pb_Data = [], pb_Filesize = 0, pb_Blocksizes = []\<rparr>)
     [(''file'', ex_chunked), (''other'', ex_raw1)]"

definition ex_rserv :: dagservice where
  "ex_rserv = \<lparr>blocks = {ex_raw1, ex_raw2, ex_raw3, ex_chunked}, add_err = (\<lambda>nd. None)\<rparr>"



text \<open>
  A file with two inline bytes and two chunks, the first Raw and the second itself a
  chunked file: seventeen bytes.
\<close>

definition ex_nested_pb :: pbdata where
  "ex_nested_pb = \<lparr>pb_Type = Data_File, pb_Data = [20, 21], pb_Filesize = 17, pb_Blocksizes = [4, 11]\<rparr>"

definition ex_nested :: node where
  "ex_nested = Node (Some ex_nested_pb) [([], ex_raw1), ([], ex_chunked)]"

text \<open>
  \<open>ex_heap_a\<close> is \<open>ex_heap\<close> after the directory \<open>a\<close> has been materialized by \<open>Child\<close>, at the
  address \<open>[1, 0]\<close>, and \<open>ex_heap_ac\<close> is \<open>ex_heap_a\<close> after a file \<open>c\<close> has been created in \<open>a\<close>
  by \<open>Open\<close>, at the address \<open>[2, 1, 0]\<close>.
\<close>

definition ex_heap_a :: heap where
  "ex_heap_a = \<lparr>h_dserv = ex_serv,
     h_dirs = [[0] \<mapsto> \<lparr>d_node = ex_root, d_name = ''root'', d_childDirs = [''a'' \<mapsto> [1, 0]],
                         d_files = Map.empty\<rparr>,
               [1, 0] \<mapsto> \<lparr>d_node = ex_dir, d_name = ''a'', d_childDirs = Map.empty,
                            d_files = Map.empty\<rparr>],
     h_files = Map.empty, h_next = 2\<rparr>"

definition ex_heap_ac :: heap where
  "ex_heap_ac = \<lparr>h_dserv = ex_serv,
     h_dirs = [[0] \<mapsto> \<lparr>d_node = ex_root, d_name = ''root'', d_childDirs = [''a'' \<mapsto> [1, 0]],
                         d_files = Map.empty\<rparr>,
               [1, 0] \<mapsto> \<lparr>d_node = ex_dir, d_name = ''a'', d_childDirs = Map.empty,
                            d_files = [''c'' \<mapsto> [2, 1, 0]]\<rparr>],
     h_files = [[2, 1, 0] \<mapsto> \<lparr>f_node = Node (FilePBData [] 0) [], f_name = ''c''\<rparr>],
     h_next = 3\<rparr>"

lemmas reader_ex_defs =
  ex_raw1_def ex_raw2_def ex_raw3_def ex_chunked_pb_def ex_chunked_def ex_meta2_def ex_rserv_def
  ex_nested_pb_def ex_nested_def

lemmas overlay_ex_defs =
  ex_heap_def ex_heap_c_def ex_heap_a_def ex_heap_ac_def ex_serv_def ex_root_def ex_dir_def ex_file_def

declare Seek.simps [simp del] Read_loop.simps [simp del] NewDagReader.simps [simp del]
  seek_links.simps [simp del]

section \<open>Reading to the end of the stream\<close>

abbreviation promise_bytes :: "error + node \<Rightarrow> byte list" where
  "promise_bytes p \<equiv> (case p of Inl e \<Rightarrow> [] | Inr n \<Rightarrow> chunk_bytes n)"

lemma file_bytes_chunks:
  "file_bytes (Node (Some pb) ls) = pb_Data pb @ concat (map (\<lambda>l. chunk_bytes (snd l)) ls)"
  by (simp add: chunk_bytes_def case_prod_unfold)

lemma good_new:
  assumes "\<forall>l \<in> set (node_Links n). snd l \<in> blocks serv \<and> readable serv (snd l)"
  shows "good (newDataFileReader serv n pb)"
  using assms
  by (auto simp: newDataFileReader_def NewRSNCFromBytes_def GetDAG_def Get_def)

lemma remaining_new:
  assumes "\<forall>l \<in> set (node_Links n). snd l \<in> blocks serv" and "node_Data n = Some pb"
  shows "remaining (newDataFileReader serv n pb) = file_bytes n"
proof -
  have "concat (map (\<lambda>p. promise_bytes p) (map (\<lambda>(nm, t). Get serv t) ls))
      = concat (map (\<lambda>l. chunk_bytes (snd l)) ls)"
    if "\<forall>l \<in> set ls. snd l \<in> blocks serv" for ls :: "(string \<times> node) list"
    using that by (induction ls) (auto simp: Get_def)
  from this [of "node_Links n"] assms show ?thesis
    by (cases n)
      (simp add: newDataFileReader_def NewRSNCFromBytes_def GetDAG_def file_bytes_chunks
        del: file_bytes.simps map_map)
qed

lemma readable_File:
  assumes "readable serv c" and "node_Data c = Some cpb" and "pb_Type cpb = Data_File"
  shows "\<forall>l \<in> set (node_Links c). snd l \<in> blocks serv \<and> readable serv (snd l)"
  using assms by (cases c) auto

lemma precalcNextBuf_good:
  assumes g: "good (DagReader serv nd pb bf ps lp off)" and e: "remaining_buf bf = []"
  shows "(lp \<ge> length ps \<and> precalcNextBuf (DagReader serv nd pb bf ps lp off)
            = (Some EOF, DagReader serv nd pb bf ps lp off)) \<or>
         (\<exists>dr2. precalcNextBuf (DagReader serv nd pb bf ps lp off) = (None, dr2) \<and> good dr2 \<and>
            remaining dr2 = remaining (DagReader serv nd pb bf ps lp off))"
proof (cases "lp \<ge> length ps")
  case True
  then show ?thesis by (simp add: precalcNextBuf_def)
next
  case False
  then have lt: "lp < length ps" by simp
  then have dr: "drop lp ps = ps ! lp # drop (Suc lp) ps"
    by (simp add: Cons_nth_drop_Suc)
  with g obtain nxt where nxt: "ps ! lp = Inr nxt" "readable serv nxt"
    by (auto split: sum.splits)
  from g dr have rest: "\<forall>p \<in> set (drop (Suc lp) ps). case p of Inl e \<Rightarrow> False | Inr n \<Rightarrow> readable serv n"
    by simp
  from nxt(2) obtain npb where npb: "node_Data nxt = Some npb"
    and ty: "pb_Type npb = Data_Raw \<or> pb_Type npb = Data_File"
    by (cases nxt) (auto split: option.splits)
  from ty show ?thesis
  proof
    assume raw: "pb_Type npb = Data_Raw"
    then have "precalcNextBuf (DagReader serv nd pb bf ps lp off)
        = (None, DagReader serv nd pb (NewRSNCFromBytes (pb_Data npb)) ps (lp + 1) off)"
      using lt nxt npb by (simp add: precalcNextBuf_def)
    moreover have "good (DagReader serv nd pb (NewRSNCFromBytes (pb_Data npb)) ps (lp + 1) off)"
      using rest by (simp add: NewRSNCFromBytes_def)
    moreover have "remaining (DagReader serv nd pb (NewRSNCFromBytes (pb_Data npb)) ps (lp + 1) off)
        = remaining (DagReader serv nd pb bf ps lp off)"
      using e raw npb by (simp add: dr nxt NewRSNCFromBytes_def chunk_bytes_def)
    ultimately show ?thesis by blast
  next
    assume fl: "pb_Type npb = Data_File"
    let ?c = "newDataFileReader serv nxt npb"
    have "precalcNextBuf (DagReader serv nd pb bf ps lp off)
        = (None, DagReader serv nd pb (SubReader ?c) ps (lp + 1) off)"
      using lt nxt npb fl by (simp add: precalcNextBuf_def)
    moreover have "good (DagReader serv nd pb (SubReader ?c) ps (lp + 1) off)"
      using rest good_new [OF readable_File [OF nxt(2) npb fl]] by simp
    moreover have "remaining ?c = file_bytes nxt"
      using readable_File [OF nxt(2) npb fl] npb by (intro remaining_new) auto
    then have "remaining (DagReader serv nd pb (SubReader ?c) ps (lp + 1) off)
        = remaining (DagReader serv nd pb bf ps lp off)"
      using e fl npb by (simp add: dr nxt chunk_bytes_def)
    ultimately show ?thesis by blast
  qed
qed

lemma bytes_Read_spec:
  "\<exists>res r'. bytes_Read r k = (res, r') \<and> fst res = take k (remaining_buf (RSNC r)) \<and>
     (snd res = None \<or> snd res = Some EOF) \<and>
     remaining_buf (RSNC r') = drop k (remaining_buf (RSNC r))"
  by (auto simp: bytes_Read_def Let_def min_def add.commute)

lemma Read_loop_correct:
  "good dr \<Longrightarrow> length acc \<le> lenb \<Longrightarrow>
   \<exists>dr'. Read_loop dr lenb acc =
           ((acc @ take (lenb - length acc) (remaining dr),
             if lenb - length acc \<le> length (remaining dr) then None else Some EOF), dr') \<and>
         good dr' \<and> remaining dr' = drop (lenb - length acc) (remaining dr)"
proof (induction dr lenb acc rule: Read_loop.induct)
  case (1 serv nd pb bf ps lp off lenb acc)
  let ?k = "lenb - length acc"
  let ?rest = "concat (map (\<lambda>p. case p of Inl e \<Rightarrow> [] | Inr n \<Rightarrow> chunk_bytes n) (drop lp ps))"
  let ?step = "(case bf of
          RSNC r \<Rightarrow> let (res, r') = bytes_Read r ?k in (res, RSNC r')
        | SubReader c \<Rightarrow> let (res, c') = Read_loop c ?k [] in (res, SubReader c'))"
  from "1.prems" have gb: "good_buf bf"
    and gp: "\<forall>p \<in> set (drop lp ps). case p of Inl e \<Rightarrow> False | Inr n \<Rightarrow> readable serv n"
    by simp_all
  have "\<exists>res bf'. ?step = (res, bf') \<and> fst res = take ?k (remaining_buf bf) \<and>
      (snd res = None \<or> snd res = Some EOF) \<and> good_buf bf' \<and>
      remaining_buf bf' = drop ?k (remaining_buf bf)"
  proof (cases bf)
    case (RSNC r)
    from bytes_Read_spec [of r ?k] show ?thesis
      unfolding RSNC by (auto simp: Let_def)
  next
    case (SubReader c)
    with gb have "good c" by simp
    from "1.IH"(1) [OF SubReader this] obtain c' where
      "Read_loop c ?k [] = ((take ?k (remaining c), if ?k \<le> length (remaining c) then None else Some EOF), c')"
      "good c'" "remaining c' = drop ?k (remaining c)"
      by auto
    then show ?thesis
      unfolding SubReader by (auto simp: Let_def)
  qed
  then obtain res bf' where step: "?step = (res, bf')"
    and bs: "fst res = take ?k (remaining_buf bf)"
    and err: "snd res = None \<or> snd res = Some EOF"
    and gb': "good_buf bf'"
    and rb': "remaining_buf bf' = drop ?k (remaining_buf bf)"
    by blast
  let ?total = "acc @ fst res"
  let ?dr1 = "DagReader serv nd pb bf' ps lp (off + word_of_nat (length (fst res)))"
  have g1: "good ?dr1"
    using gb' gp by simp
  have unfold: "Read_loop (DagReader serv nd pb bf ps lp off) lenb acc =
      (if length ?total = lenb then ((?total, None), ?dr1)
       else (case precalcNextBuf ?dr1 of
               (Some e, dr2) \<Rightarrow> ((?total, Some e), dr2)
             | (None, dr2) \<Rightarrow> Read_loop dr2 lenb ?total))"
    using err by (subst Read_loop.simps) (auto simp: step Let_def)
  show ?case
  proof (cases "length ?total = lenb")
    case True
    then have k: "?k \<le> length (remaining_buf bf)"
      using "1.prems"(2) by (simp add: bs)
    then show ?thesis
      using True gb' gp by (simp add: unfold bs rb')
  next
    case False
    then have short: "length (remaining_buf bf) < ?k"
      using "1.prems"(2) by (simp add: bs)
    then have all: "fst res = remaining_buf bf" and empty: "remaining_buf bf' = []"
      by (simp_all add: bs rb')
    from precalcNextBuf_good [OF g1 empty]
    show ?thesis
    proof
      assume eof: "lp \<ge> length ps \<and> precalcNextBuf ?dr1 = (Some EOF, ?dr1)"
      then show ?thesis
        using False short g1 by (simp add: unfold all empty)
    next
      assume "\<exists>dr2. precalcNextBuf ?dr1 = (None, dr2) \<and> good dr2 \<and> remaining dr2 = remaining ?dr1"
      then obtain dr2 where p: "precalcNextBuf ?dr1 = (None, dr2)" and g2: "good dr2"
        and r2: "remaining dr2 = ?rest"
        by (auto simp: empty)
      have len: "length ?total \<le> lenb"
        using short "1.prems"(2) by (simp add: all)
      have "\<not> (snd res \<noteq> None \<and> snd res \<noteq> Some EOF)"
        using err by auto
      from "1.IH"(2) [OF step [symmetric] refl refl refl refl this False p [symmetric] refl g2 len]
      obtain dr' where
        rl: "Read_loop dr2 lenb ?total =
          ((?total @ take (lenb - length ?total) (remaining dr2),
            if lenb - length ?total \<le> length (remaining dr2) then None else Some EOF), dr')"
        and g': "good dr'" and r': "remaining dr' = drop (lenb - length ?total) (remaining dr2)"
        by blast
      let ?R = "remaining_buf bf"
      let ?m = "?k - length ?R"
      have eq: "lenb - length ?total = ?m"
        by (simp add: all)
      have rl': "Read_loop (DagReader serv nd pb bf ps lp off) lenb acc =
          ((acc @ ?R @ take ?m ?rest, if ?m \<le> length ?rest then None else Some EOF), dr')"
        using False by (simp add: unfold p rl eq r2) (simp add: all)
      have t: "take ?k (?R @ ?rest) = ?R @ take ?m ?rest"
        using short by simp
      have d: "drop ?k (?R @ ?rest) = drop ?m ?rest"
        using short by simp
      have c: "(?k \<le> length (?R @ ?rest)) = (?m \<le> length ?rest)"
        using short by auto
      have "remaining dr' = drop ?m ?rest"
        using r' by (simp only: eq r2)
      then show ?thesis
        using g' unfolding remaining.simps t d c rl' by blast
    qed
  qed
qed

lemma read_until_eof_correct:
  assumes "\<forall>k. 0 < sz k"
  shows "good dr \<Longrightarrow> read_until_eof dr sz k acc = Some (acc @ remaining dr, EOF)"
proof (induction "length (remaining dr)" arbitrary: dr k acc rule: less_induct)
  case less
  let ?n = "sz k"
  from assms have pos: "0 < ?n" by simp
  from Read_loop_correct [OF less.prems, of "[]" ?n] obtain dr' where
    rd: "Read dr ?n = ((take ?n (remaining dr), if ?n \<le> length (remaining dr) then None else Some EOF), dr')"
    and g': "good dr'" and r': "remaining dr' = drop ?n (remaining dr)"
    by (auto simp: Read_def)
  show ?case
  proof (cases "?n \<le> length (remaining dr)")
    case True
    then have "length (remaining dr') < length (remaining dr)"
      using pos by (simp add: r')
    from less.hyps [OF this g', of "Suc k" "acc @ take ?n (remaining dr)"]
    show ?thesis
      using True by (subst read_until_eof.simps) (simp add: rd r')
  next
    case False
    then show ?thesis
      by (subst read_until_eof.simps) (simp add: rd)
  qed
qed

lemma concat_chunks_length:
  assumes "list_all2 (\<lambda>l s. length (chunk_bytes (snd l)) = unat s) ls S"
  shows "length (concat (map (\<lambda>l. chunk_bytes (snd l)) ls)) = sum_list (map unat S)"
  using assms by (induction rule: list_all2_induct) simp_all

lemma wf_file_props:
  "wf_file serv n \<Longrightarrow> node_Data n = Some pb \<Longrightarrow>
     length (file_bytes n) = unat (pb_Filesize pb) \<and>
     (\<forall>l \<in> set (node_Links n). snd l \<in> blocks serv \<and> readable serv (snd l))"
proof (induction n arbitrary: pb rule: measure_induct_rule [of size])
  case (less n)
  obtain d ls where n: "n = Node d ls" by (cases n)
  with less.prems have d: "d = Some pb" by simp
  let ?S = "pb_Blocksizes pb"
  from less.prems(1) have len: "length ls = length ?S"
    and fs: "unat (pb_Filesize pb) = length (pb_Data pb) + sum_list (map unat ?S)"
    and ch: "\<forall>(l, s) \<in> set (zip ls ?S). snd l \<in> blocks serv \<and>
             (case node_Data (snd l) of
                None \<Rightarrow> False
              | Some cpb \<Rightarrow>
                  (pb_Type cpb = Data_Raw \<and> length (pb_Data cpb) = unat s) \<or>
                  (pb_Type cpb = Data_File \<and> pb_Filesize cpb = s \<and> wf_file serv (snd l)))"
    unfolding n d by simp_all
  have each: "snd l \<in> blocks serv \<and> readable serv (snd l) \<and> length (chunk_bytes (snd l)) = unat s"
    if "(l, s) \<in> set (zip ls ?S)" for l s
  proof -
    from that have "l \<in> set ls" by (rule set_zip_leftD)
    then have sz: "size (snd l) < size n"
      unfolding n by (rule size_link_target)
    from bspec [OF ch that] have bl: "snd l \<in> blocks serv"
      and c: "case node_Data (snd l) of
                None \<Rightarrow> False
              | Some cpb \<Rightarrow>
                  (pb_Type cpb = Data_Raw \<and> length (pb_Data cpb) = unat s) \<or>
                  (pb_Type cpb = Data_File \<and> pb_Filesize cpb = s \<and> wf_file serv (snd l))"
      by simp_all
    from c obtain cpb where cpb: "node_Data (snd l) = Some cpb"
      by (cases "node_Data (snd l)") simp_all
    with c have k: "(pb_Type cpb = Data_Raw \<and> length (pb_Data cpb) = unat s) \<or>
              (pb_Type cpb = Data_File \<and> pb_Filesize cpb = s \<and> wf_file serv (snd l))"
      by simp
    from k show ?thesis
    proof
      assume "pb_Type cpb = Data_Raw \<and> length (pb_Data cpb) = unat s"
      then show ?thesis
        using cpb bl by (cases "snd l") (auto simp: chunk_bytes_def)
    next
      assume f: "pb_Type cpb = Data_File \<and> pb_Filesize cpb = s \<and> wf_file serv (snd l)"
      with less.IH [OF sz _ cpb] have
        "length (file_bytes (snd l)) = unat s"
        "\<forall>m \<in> set (node_Links (snd l)). snd m \<in> blocks serv \<and> readable serv (snd m)"
        by auto
      then show ?thesis
        using cpb bl f by (cases "snd l") (auto simp: chunk_bytes_def)
    qed
  qed
  have "list_all2 (\<lambda>l s. length (chunk_bytes (snd l)) = unat s) ls ?S"
    using len each by (auto simp: list_all2_iff)
  then have "length (concat (map (\<lambda>l. chunk_bytes (snd l)) ls)) = sum_list (map unat ?S)"
    by (rule concat_chunks_length)
  then have "length (file_bytes n) = unat (pb_Filesize pb)"
    unfolding n d by (simp add: file_bytes_chunks fs del: file_bytes.simps)
  moreover have "snd l \<in> blocks serv \<and> readable serv (snd l)" if "l \<in> set ls" for l
  proof -
    from that len obtain s where "(l, s) \<in> set (zip ls ?S)"
      by (metis in_set_impl_in_set_zip1)
    then show ?thesis using each by blast
  qed
  ultimately show ?case
    unfolding n by simp
qed

text \<open>
  C1. Let \<open>N\<close> be a well-formed file node (\<open>wf_file\<close>: its \<open>filesize\<close> is the inline length
  plus the sum of the chunk sizes, and each chunk is held by the service and carries its
  declared bytes). Then \<open>NewDagReader\<close> opens a reader on \<open>N\<close>, and a client that calls \<open>Read\<close>
  on it again and again, each time with a buffer that is not empty, does reach the end of
  the stream: it gets \<open>EOF\<close>, and the bytes returned by all the calls together are the
  bytes of the file, \<open>filesize\<close> of them. (With an empty buffer \<open>Read\<close> returns no byte and no
  error, so a client that passes empty buffers for ever never sees the end.)
\<close>

theorem C1_read_total:
  assumes wf: "wf_file serv N" and pb: "node_Data N = Some pb" and sz: "\<forall>k. 0 < sz k"
  shows "\<exists>dr bs. NewDagReader serv N = Inr dr \<and>
           read_until_eof dr sz 0 [] = Some (bs, EOF) \<and>
           bs = file_bytes N \<and> length bs = unat (pb_Filesize pb)"
proof -
  let ?dr = "newDataFileReader serv N pb"
  from wf pb have ty: "pb_Type pb = Data_File \<or> pb_Type pb = Data_Raw"
    by (cases N) simp
  then have new: "NewDagReader serv N = Inr ?dr"
    using pb by (subst NewDagReader.simps) auto
  from wf_file_props [OF wf pb] have len: "length (file_bytes N) = unat (pb_Filesize pb)"
    and ch: "\<forall>l \<in> set (node_Links N). snd l \<in> blocks serv \<and> readable serv (snd l)"
    by simp_all
  from ch have g: "good ?dr"
    by (rule good_new)
  from ch pb have r: "remaining ?dr = file_bytes N"
    by (intro remaining_new) auto
  from read_until_eof_correct [OF sz g, of 0 "[]"]
  have "read_until_eof ?dr sz 0 [] = Some (file_bytes N, EOF)"
    by (simp add: r)
  with new len show ?thesis by simp
qed

theorem C1_read_total_witness:
  "wf_file ex_rserv ex_chunked \<and>
   (\<exists>dr. NewDagReader ex_rserv ex_chunked = Inr dr \<and>
      read_until_eof dr (\<lambda>k. 4) 0 [] = Some ([1, 2, 3, 4, 5, 6, 7, 8, 9, 10, 11], EOF)) \<and>
   unat (pb_Filesize ex_chunked_pb) = 11"
proof -
  have wf: "wf_file ex_rserv ex_chunked"
    by (simp add: reader_ex_defs)
  have pb: "node_Data ex_chunked = Some ex_chunked_pb"
    by (simp add: ex_chunked_def)
  have fb: "file_bytes ex_chunked = [1, 2, 3, 4, 5, 6, 7, 8, 9, 10, 11]"
    by (simp add: reader_ex_defs)
  from C1_read_total [OF wf pb, of "\<lambda>k. 4"] fb wf show ?thesis
    by (auto simp: ex_chunked_pb_def)
qed

section \<open>Seek\<close>



lemma Seek_CUR: "Seek dr off SEEK_CUR = Seek dr (dr_offset dr + off) SEEK_SET"
proof (cases dr)
  case (DagReader serv nd pb bf ps lp off')
  show ?thesis
    unfolding DagReader
    by (subst Seek.simps) (simp add: SEEK_CUR_def SEEK_SET_def)
qed

lemma Seek_END: "Seek dr off SEEK_END = Seek dr (pb_Filesize (dr_pbdata dr) - off) SEEK_SET"
proof (cases dr)
  case (DagReader serv nd pb bf ps lp off')
  show ?thesis
    unfolding DagReader
    by (subst Seek.simps) (simp add: SEEK_END_def SEEK_CUR_def SEEK_SET_def)
qed

lemma seek_links_found:
  assumes "i \<le> j" and "j < length S"
    and "\<forall>k. i \<le> k \<and> k < j \<longrightarrow> \<not> R - sum_list (take k S) < S ! k"
    and "R - sum_list (take j S) < S ! j"
  shows "seek_links S i (R - sum_list (take i S)) lp = (j, R - sum_list (take j S))"
  using assms
proof (induction rule: inc_induct)
  case base
  then show ?case
    by (subst seek_links.simps) simp
next
  case (step n)
  then have n: "n < length S" and nlt: "\<not> R - sum_list (take n S) < S ! n"
    by auto
  have "seek_links S n (R - sum_list (take n S)) lp
      = seek_links S (Suc n) (R - sum_list (take n S) - S ! n) lp"
    using n nlt by (subst seek_links.simps) simp
  also have "R - sum_list (take n S) - S ! n = R - sum_list (take (Suc n) S)"
    using n by (simp add: take_Suc_conv_app_nth)
  also have "seek_links S (Suc n) (R - sum_list (take (Suc n) S)) lp = (j, R - sum_list (take j S))"
    using step by simp
  finally show ?case .
qed

lemma seek_links_not_found:
  assumes "i \<le> length S"
    and "\<forall>k. i \<le> k \<and> k < length S \<longrightarrow> \<not> R - sum_list (take k S) < S ! k"
  shows "seek_links S i (R - sum_list (take i S)) lp = (lp, R - sum_list S)"
  using assms
proof (induction rule: inc_induct)
  case base
  then show ?case
    by (subst seek_links.simps) simp
next
  case (step n)
  then have n: "n < length S" and nlt: "\<not> R - sum_list (take n S) < S ! n"
    by auto
  have "seek_links S n (R - sum_list (take n S)) lp
      = seek_links S (Suc n) (R - sum_list (take n S) - S ! n) lp"
    using n nlt by (subst seek_links.simps) simp
  also have "R - sum_list (take n S) - S ! n = R - sum_list (take (Suc n) S)"
    using n by (simp add: take_Suc_conv_app_nth)
  also have "seek_links S (Suc n) (R - sum_list (take (Suc n) S)) lp = (lp, R - sum_list S)"
    using step by simp
  finally show ?case .
qed

lemma sum_list_word_of_nat: "sum_list (xs :: 64 word list) = word_of_nat (sum_list (map unat xs))"
  by (induction xs) simp_all

lemma cum_mono: "k \<le> j \<Longrightarrow> cum S k \<le> cum S j"
proof -
  assume "k \<le> j"
  then have "take j S = take k S @ take (j - k) (drop k S)"
    by (metis le_add_diff_inverse take_add)
  then show ?thesis by (simp add: cum_def)
qed

lemma cum_Suc: "k < length S \<Longrightarrow> cum S (Suc k) = cum S k + unat (S ! k)"
  by (simp add: cum_def take_Suc_conv_app_nth)

lemma seek_links_chosen:
  assumes "chosen S R j"
  shows "seek_links S 0 R lp = (j, R - sum_list (take j S))"
  using assms seek_links_found [of 0 j S R lp] by (simp add: chosen_def)

lemma chosen_boundary:
  assumes "j < length S" and "S ! j \<noteq> 0" and "cum S j < 2 ^ 64"
  shows "chosen S (word_of_nat (cum S j)) j \<and> word_of_nat (cum S j) - sum_list (take j S) = 0"
proof -
  let ?R = "word_of_nat (cum S j) :: 64 word"
  have res: "?R - sum_list (take k S) = word_of_nat (cum S j - cum S k)" if "k \<le> j" for k
    using cum_mono [OF that, of S]
    by (simp add: sum_list_word_of_nat [of "take k S"] cum_def of_nat_diff)
  have "\<not> ?R - sum_list (take k S) < S ! k" if "k < j" for k
  proof -
    have "cum S (Suc k) \<le> cum S j"
      using that by (intro cum_mono) simp
    then have le: "unat (S ! k) \<le> cum S j - cum S k"
      using that assms(1) by (simp add: cum_Suc)
    have "cum S j - cum S k < 2 ^ 64"
      using assms(3) by simp
    then have "unat (word_of_nat (cum S j - cum S k) :: 64 word) = cum S j - cum S k"
      by (simp add: of_nat_inverse)
    with le show ?thesis
      using that by (simp add: res word_less_nat_alt)
  qed
  moreover have "?R - sum_list (take j S) < S ! j"
    using assms(2) by (simp add: res word_neq_0_conv)
  ultimately show ?thesis
    using assms(1) by (simp add: chosen_def res)
qed

lemma Seek_inline:
  assumes "\<not> t <s 0" and "sint t \<le> int (length (pb_Data pb))"
  shows "Seek (DagReader serv nd pb bf ps lp off) t SEEK_SET =
    ((t, None), DagReader serv nd pb (RSNC \<lparr>br_s = drop (nat (sint t)) (pb_Data pb), br_i = 0\<rparr>) ps 0 t)"
  using assms by (subst Seek.simps) (simp add: NewRSNCFromBytes_def)

lemma Seek_chunk_raw:
  assumes "\<not> t <s 0" and "int (length (pb_Data pb)) < sint t"
    and "chosen (pb_Blocksizes pb) (t - word_of_nat (length (pb_Data pb))) j"
    and "j < length ps" and "ps ! j = Inr c" and "node_Data c = Some cpb" and "pb_Type cpb = Data_Raw"
    and "\<not> t - word_of_nat (length (pb_Data pb)) - sum_list (take j (pb_Blocksizes pb)) <s 0"
  shows "Seek (DagReader serv nd pb bf ps lp off) t SEEK_SET =
    ((t, None),
     DagReader serv nd pb
       (RSNC \<lparr>br_s = pb_Data cpb,
              br_i = nat (sint (t - word_of_nat (length (pb_Data pb)) - sum_list (take j (pb_Blocksizes pb))))\<rparr>)
       ps (Suc j) t)"
  using assms
  by (subst Seek.simps)
    (simp add: seek_links_chosen precalcNextBuf_def NewRSNCFromBytes_def bytes_Seek_def Let_def)

lemma Seek_chunk_file:
  assumes "\<not> t <s 0" and "int (length (pb_Data pb)) < sint t"
    and "chosen (pb_Blocksizes pb) (t - word_of_nat (length (pb_Data pb))) j"
    and "j < length ps" and "ps ! j = Inr c" and "node_Data c = Some cpb" and "pb_Type cpb = Data_File"
    and "Seek (newDataFileReader serv c cpb)
           (t - word_of_nat (length (pb_Data pb)) - sum_list (take j (pb_Blocksizes pb))) SEEK_SET
         = ((t - word_of_nat (length (pb_Data pb)) - sum_list (take j (pb_Blocksizes pb)), None), c')"
  shows "Seek (DagReader serv nd pb bf ps lp off) t SEEK_SET =
    ((t, None), DagReader serv nd pb (SubReader c') ps (Suc j) t)"
  using assms
  by (subst Seek.simps)
    (simp add: seek_links_chosen precalcNextBuf_def Let_def)

lemma Seek_fresh_zero:
  "Seek (newDataFileReader serv c cpb) 0 SEEK_SET = ((0, None), newDataFileReader serv c cpb)"
  unfolding newDataFileReader_def
  by (subst Seek.simps) (simp add: NewRSNCFromBytes_def)

lemma sint_of_nat_small:
  assumes "n < 2 ^ 63"
  shows "sint (word_of_nat n :: 64 word) = int n"
proof -
  have "signed_take_bit 63 (int n) = int n"
    using assms by (intro signed_take_bit_int_eq_self) auto
  then show ?thesis
    by (simp add: signed_of_nat)
qed

lemma not_sless_of_nat_small:
  assumes "n < 2 ^ 63"
  shows "\<not> (word_of_nat n :: 64 word) <s 0"
  using sint_of_nat_small [OF assms] by (simp add: word_sless_alt)











lemma reader_on_precalcNextBuf:
  assumes "precalcNextBuf dr = (e, dr2)" and "reader_on serv N pb dr"
  shows "reader_on serv N pb dr2"
  using assms
  by (cases dr)
    (auto simp: precalcNextBuf_def reader_on_def
      split: if_splits sum.splits option.splits DataType.splits)

lemma reader_on_Seek_SET:
  assumes "Seek dr x SEEK_SET = (r, dr')" and "reader_on serv N pb dr"
  shows "reader_on serv N pb dr'"
proof (cases dr)
  case (DagReader sv nd p bf ps lp off)
  with assms(2) have dr: "dr = DagReader serv N pb bf (GetDAG serv N) lp off"
    by (simp add: reader_on_def)
  have pre: "dr_serv dr2 = serv \<and> dr_node dr2 = N \<and> dr_pbdata dr2 = pb \<and>
      dr_promises dr2 = GetDAG serv N"
    if "precalcNextBuf (DagReader serv N pb bf (GetDAG serv N) lp' off) = (e, dr2)" for lp' e dr2
    using reader_on_precalcNextBuf [OF that, of serv N pb]
    by (simp add: reader_on_def)
  show ?thesis
    using assms(1) unfolding dr
    by (subst (asm) Seek.simps)
      (auto simp: Let_def reader_on_def dest!: pre split: if_splits prod.splits option.splits
        dagreader.splits readseekcloser.splits)
qed

lemma reader_on_Seek:
  assumes "Seek dr x whence = (r, dr')" and "reader_on serv N pb dr"
  shows "reader_on serv N pb dr'"
proof -
  consider "whence = SEEK_SET" | "whence = SEEK_CUR" | "whence = SEEK_END"
    | "whence \<noteq> SEEK_SET" "whence \<noteq> SEEK_CUR" "whence \<noteq> SEEK_END"
    by blast
  then show ?thesis
  proof cases
    case 1
    with assms show ?thesis by (auto intro: reader_on_Seek_SET)
  next
    case 2
    with assms show ?thesis by (auto simp: Seek_CUR intro: reader_on_Seek_SET)
  next
    case 3
    with assms show ?thesis by (auto simp: Seek_END intro: reader_on_Seek_SET)
  next
    case 4
    with assms show ?thesis
      by (cases dr) (simp add: Seek.simps)
  qed
qed







text \<open>
  C6. Let the reader have the inline bytes \<open>pb_Data pb\<close>, of length \<open>I\<close>, and the chunk sizes
  \<open>S = pb_Blocksizes pb\<close>, and let the target \<open>t\<close> be non-negative.

  \<^item> If \<open>t \<le> I\<close>, \<open>Seek\<close> succeeds with \<open>t\<close>, the buffer is a byte cursor over the inline bytes
    from \<open>t\<close> on, \<open>linkPosition\<close> is 0 and the offset is \<open>t\<close>.
  \<^item> If \<open>t > I\<close> and \<open>j\<close> is the smallest index with \<open>S ! j\<close> strictly greater than the residual
    (\<open>chosen\<close>), then the buffer is opened on chunk \<open>j\<close> and positioned at the residual, and
    \<open>linkPosition\<close> is \<open>j + 1\<close>: for a Raw chunk a byte cursor at the residual, for a File chunk
    the sub-reader after its own \<open>Seek\<close> to the residual.
  \<^item> If \<open>t\<close> is \<open>I\<close> plus the cumulative size of the chunks before \<open>i\<close> (the chunks \<open>0..i-1\<close>;
    the sum is positive and chunk \<open>i\<close> is not empty), then the chunk chosen is \<open>i\<close> and the
    cursor stands at its first byte: the comparison is strict.
\<close>

theorem C6_seek_landing:
  assumes "\<not> t <s 0"
  shows
   "(sint t \<le> int (length (pb_Data pb)) \<longrightarrow>
       Seek (DagReader serv nd pb bf ps lp off) t SEEK_SET =
         ((t, None),
          DagReader serv nd pb (RSNC \<lparr>br_s = drop (nat (sint t)) (pb_Data pb), br_i = 0\<rparr>) ps 0 t)) \<and>
    (int (length (pb_Data pb)) < sint t \<and>
     chosen (pb_Blocksizes pb) (t - word_of_nat (length (pb_Data pb))) j \<and>
     j < length ps \<and> ps ! j = Inr c \<and> node_Data c = Some cpb \<longrightarrow>
       (pb_Type cpb = Data_Raw \<and>
        \<not> t - word_of_nat (length (pb_Data pb)) - sum_list (take j (pb_Blocksizes pb)) <s 0 \<longrightarrow>
          Seek (DagReader serv nd pb bf ps lp off) t SEEK_SET =
            ((t, None),
             DagReader serv nd pb
               (RSNC \<lparr>br_s = pb_Data cpb,
                      br_i = nat (sint (t - word_of_nat (length (pb_Data pb))
                                          - sum_list (take j (pb_Blocksizes pb))))\<rparr>)
               ps (Suc j) t)) \<and>
       (pb_Type cpb = Data_File \<and>
        Seek (newDataFileReader serv c cpb)
          (t - word_of_nat (length (pb_Data pb)) - sum_list (take j (pb_Blocksizes pb))) SEEK_SET
          = ((t - word_of_nat (length (pb_Data pb)) - sum_list (take j (pb_Blocksizes pb)), None), c') \<longrightarrow>
          Seek (DagReader serv nd pb bf ps lp off) t SEEK_SET =
            ((t, None), DagReader serv nd pb (SubReader c') ps (Suc j) t))) \<and>
    (i < length (pb_Blocksizes pb) \<and> pb_Blocksizes pb ! i \<noteq> 0 \<and> 0 < cum (pb_Blocksizes pb) i \<and>
     length (pb_Data pb) + cum (pb_Blocksizes pb) i < 2 ^ 63 \<and>
     t = word_of_nat (length (pb_Data pb) + cum (pb_Blocksizes pb) i) \<and>
     i < length ps \<and> ps ! i = Inr c \<and> node_Data c = Some cpb \<longrightarrow>
       chosen (pb_Blocksizes pb) (t - word_of_nat (length (pb_Data pb))) i \<and>
       (pb_Type cpb = Data_Raw \<longrightarrow>
          Seek (DagReader serv nd pb bf ps lp off) t SEEK_SET =
            ((t, None), DagReader serv nd pb (RSNC \<lparr>br_s = pb_Data cpb, br_i = 0\<rparr>) ps (Suc i) t)) \<and>
       (pb_Type cpb = Data_File \<longrightarrow>
          Seek (DagReader serv nd pb bf ps lp off) t SEEK_SET =
            ((t, None), DagReader serv nd pb (SubReader (newDataFileReader serv c cpb)) ps (Suc i) t)))"
proof (intro conjI impI)
  assume "sint t \<le> int (length (pb_Data pb))"
  with assms show "Seek (DagReader serv nd pb bf ps lp off) t SEEK_SET =
      ((t, None),
       DagReader serv nd pb (RSNC \<lparr>br_s = drop (nat (sint t)) (pb_Data pb), br_i = 0\<rparr>) ps 0 t)"
    by (rule Seek_inline)
next
  assume a: "int (length (pb_Data pb)) < sint t \<and>
     chosen (pb_Blocksizes pb) (t - word_of_nat (length (pb_Data pb))) j \<and>
     j < length ps \<and> ps ! j = Inr c \<and> node_Data c = Some cpb"
    and b: "pb_Type cpb = Data_Raw \<and>
        \<not> t - word_of_nat (length (pb_Data pb)) - sum_list (take j (pb_Blocksizes pb)) <s 0"
  show "Seek (DagReader serv nd pb bf ps lp off) t SEEK_SET =
      ((t, None),
       DagReader serv nd pb
         (RSNC \<lparr>br_s = pb_Data cpb,
                br_i = nat (sint (t - word_of_nat (length (pb_Data pb))
                                    - sum_list (take j (pb_Blocksizes pb))))\<rparr>)
         ps (Suc j) t)"
    using Seek_chunk_raw [of t pb j ps c cpb serv nd bf lp off] assms a b by simp
next
  assume a: "int (length (pb_Data pb)) < sint t \<and>
     chosen (pb_Blocksizes pb) (t - word_of_nat (length (pb_Data pb))) j \<and>
     j < length ps \<and> ps ! j = Inr c \<and> node_Data c = Some cpb"
    and b: "pb_Type cpb = Data_File \<and>
        Seek (newDataFileReader serv c cpb)
          (t - word_of_nat (length (pb_Data pb)) - sum_list (take j (pb_Blocksizes pb))) SEEK_SET
          = ((t - word_of_nat (length (pb_Data pb)) - sum_list (take j (pb_Blocksizes pb)), None), c')"
  show "Seek (DagReader serv nd pb bf ps lp off) t SEEK_SET =
      ((t, None), DagReader serv nd pb (SubReader c') ps (Suc j) t)"
    using Seek_chunk_file [of t pb j ps c cpb serv c' nd bf lp off] assms a b by simp
next
  assume a: "i < length (pb_Blocksizes pb) \<and> pb_Blocksizes pb ! i \<noteq> 0 \<and> 0 < cum (pb_Blocksizes pb) i \<and>
     length (pb_Data pb) + cum (pb_Blocksizes pb) i < 2 ^ 63 \<and>
     t = word_of_nat (length (pb_Data pb) + cum (pb_Blocksizes pb) i) \<and>
     i < length ps \<and> ps ! i = Inr c \<and> node_Data c = Some cpb"
  let ?I = "length (pb_Data pb)" and ?S = "pb_Blocksizes pb"
  from a have R: "t - word_of_nat ?I = word_of_nat (cum ?S i)"
    by simp
  from a have "cum ?S i < 2 ^ 64"
    by simp
  with a have "chosen ?S (word_of_nat (cum ?S i)) i
      \<and> word_of_nat (cum ?S i) - sum_list (take i ?S) = (0 :: 64 word)"
    by (intro chosen_boundary) simp_all
  then have cb: "chosen ?S (t - word_of_nat ?I) i"
    and z: "t - word_of_nat ?I - sum_list (take i ?S) = 0"
    unfolding R by blast+
  from a have st: "sint t = int (?I + cum ?S i)"
    using sint_of_nat_small [of "?I + cum ?S i"] by simp
  with a have gt: "int ?I < sint t"
    by simp
  from a have c: "i < length ps" "ps ! i = Inr c" "node_Data c = Some cpb"
    by simp_all
  show "chosen ?S (t - word_of_nat ?I) i"
    by (rule cb)
  show "Seek (DagReader serv nd pb bf ps lp off) t SEEK_SET =
      ((t, None), DagReader serv nd pb (RSNC \<lparr>br_s = pb_Data cpb, br_i = 0\<rparr>) ps (Suc i) t)"
    if "pb_Type cpb = Data_Raw"
    using Seek_chunk_raw [OF assms gt cb c that] by (simp add: z word_sless_alt)
  show "Seek (DagReader serv nd pb bf ps lp off) t SEEK_SET =
      ((t, None), DagReader serv nd pb (SubReader (newDataFileReader serv c cpb)) ps (Suc i) t)"
    if "pb_Type cpb = Data_File"
    using Seek_chunk_file [OF assms gt cb c that, of serv "newDataFileReader serv c cpb"]
    by (simp add: z Seek_fresh_zero)
qed

theorem C6_seek_landing_witness:
  "Seek (DagReader ex_rserv ex_nested ex_nested_pb (RSNC \<lparr>br_s = [20, 21], br_i = 0\<rparr>)
           [Inr ex_raw1, Inr ex_chunked] 0 0) 1 SEEK_SET =
     ((1, None),
      DagReader ex_rserv ex_nested ex_nested_pb (RSNC \<lparr>br_s = [21], br_i = 0\<rparr>)
        [Inr ex_raw1, Inr ex_chunked] 0 1) \<and>
   Seek (DagReader ex_rserv ex_nested ex_nested_pb (RSNC \<lparr>br_s = [20, 21], br_i = 0\<rparr>)
           [Inr ex_raw1, Inr ex_chunked] 0 0) 5 SEEK_SET =
     ((5, None),
      DagReader ex_rserv ex_nested ex_nested_pb (RSNC \<lparr>br_s = [1, 2, 3, 4], br_i = 3\<rparr>)
        [Inr ex_raw1, Inr ex_chunked] 1 5) \<and>
   Seek (DagReader ex_rserv ex_nested ex_nested_pb (RSNC \<lparr>br_s = [20, 21], br_i = 0\<rparr>)
           [Inr ex_raw1, Inr ex_chunked] 0 0) 11 SEEK_SET =
     ((11, None),
      DagReader ex_rserv ex_nested ex_nested_pb
        (SubReader (snd (Seek (newDataFileReader ex_rserv ex_chunked ex_chunked_pb) 5 SEEK_SET)))
        [Inr ex_raw1, Inr ex_chunked] 2 11) \<and>
   Seek (DagReader ex_rserv ex_nested ex_nested_pb (RSNC \<lparr>br_s = [20, 21], br_i = 0\<rparr>)
           [Inr ex_raw1, Inr ex_chunked] 0 0) 6 SEEK_SET =
     ((6, None),
      DagReader ex_rserv ex_nested ex_nested_pb
        (SubReader (newDataFileReader ex_rserv ex_chunked ex_chunked_pb))
        [Inr ex_raw1, Inr ex_chunked] 2 6) \<and>
   Seek (DagReader ex_rserv ex_chunked ex_chunked_pb (RSNC \<lparr>br_s = [], br_i = 0\<rparr>)
           [Inr ex_raw1, Inr ex_raw2, Inr ex_raw3] 0 0) 4 SEEK_SET =
     ((4, None),
      DagReader ex_rserv ex_chunked ex_chunked_pb (RSNC \<lparr>br_s = [5, 6, 7, 8], br_i = 0\<rparr>)
        [Inr ex_raw1, Inr ex_raw2, Inr ex_raw3] 2 4)"
proof -
  let ?bf = "RSNC \<lparr>br_s = [20, 21], br_i = 0\<rparr>"
  let ?ps = "[Inr ex_raw1, Inr ex_chunked] :: (error + node) list"
  let ?sub = "snd (Seek (newDataFileReader ex_rserv ex_chunked ex_chunked_pb) 5 SEEK_SET)"
  have sub: "Seek (newDataFileReader ex_rserv ex_chunked ex_chunked_pb) 5 SEEK_SET = ((5, None), ?sub)"
  proof -
    have "fst (Seek (newDataFileReader ex_rserv ex_chunked ex_chunked_pb) 5 SEEK_SET) = (5, None)"
      by code_simp
    then show ?thesis
      by (simp add: prod_eq_iff)
  qed
  have n: "\<not> (1 :: 64 word) <s 0" "\<not> (5 :: 64 word) <s 0" "\<not> (11 :: 64 word) <s 0"
    "\<not> (6 :: 64 word) <s 0" "\<not> (4 :: 64 word) <s 0" "\<not> (3 :: 64 word) <s 0"
    by (simp_all add: word_sless_alt)
  have a: "Seek (DagReader ex_rserv ex_nested ex_nested_pb ?bf ?ps 0 0) 1 SEEK_SET =
     ((1, None), DagReader ex_rserv ex_nested ex_nested_pb (RSNC \<lparr>br_s = [21], br_i = 0\<rparr>) ?ps 0 1)"
    using C6_seek_landing [OF n(1), of ex_nested_pb ex_rserv ex_nested ?bf ?ps 0 0]
    by (simp add: ex_nested_pb_def)
  have ch0: "chosen (pb_Blocksizes ex_nested_pb) (5 - word_of_nat (length (pb_Data ex_nested_pb))) 0"
    by (simp add: chosen_def ex_nested_pb_def)
  have b: "Seek (DagReader ex_rserv ex_nested ex_nested_pb ?bf ?ps 0 0) 5 SEEK_SET =
     ((5, None), DagReader ex_rserv ex_nested ex_nested_pb (RSNC \<lparr>br_s = [1, 2, 3, 4], br_i = 3\<rparr>) ?ps 1 5)"
    using C6_seek_landing [OF n(2), of ex_nested_pb ex_rserv ex_nested ?bf ?ps 0 0 0 ex_raw1
        "\<lparr>pb_Type = Data_Raw, pb_Data = [1, 2, 3, 4], pb_Filesize = 4, pb_Blocksizes = []\<rparr>"] ch0 n(6)
    by (simp add: ex_nested_pb_def ex_raw1_def)
  have ch1: "chosen (pb_Blocksizes ex_nested_pb) (11 - word_of_nat (length (pb_Data ex_nested_pb))) 1"
    by (simp add: chosen_def ex_nested_pb_def)
  have c: "Seek (DagReader ex_rserv ex_nested ex_nested_pb ?bf ?ps 0 0) 11 SEEK_SET =
     ((11, None), DagReader ex_rserv ex_nested ex_nested_pb (SubReader ?sub) ?ps 2 11)"
    using C6_seek_landing [OF n(3), of ex_nested_pb ex_rserv ex_nested ?bf ?ps 0 0 1 ex_chunked
        ex_chunked_pb ?sub] ch1 sub
    by (simp add: ex_nested_pb_def ex_chunked_def) (simp add: ex_chunked_pb_def)
  have d: "Seek (DagReader ex_rserv ex_nested ex_nested_pb ?bf ?ps 0 0) 6 SEEK_SET =
     ((6, None), DagReader ex_rserv ex_nested ex_nested_pb
        (SubReader (newDataFileReader ex_rserv ex_chunked ex_chunked_pb)) ?ps 2 6)"
    using C6_seek_landing [OF n(4), of ex_nested_pb ex_rserv ex_nested ?bf ?ps 0 0 _ _ ex_chunked_pb _ 1]
    by (simp add: ex_nested_pb_def ex_chunked_def cum_def) (simp add: ex_chunked_pb_def)
  have e: "Seek (DagReader ex_rserv ex_chunked ex_chunked_pb (RSNC \<lparr>br_s = [], br_i = 0\<rparr>)
           [Inr ex_raw1, Inr ex_raw2, Inr ex_raw3] 0 0) 4 SEEK_SET =
     ((4, None),
      DagReader ex_rserv ex_chunked ex_chunked_pb (RSNC \<lparr>br_s = [5, 6, 7, 8], br_i = 0\<rparr>)
        [Inr ex_raw1, Inr ex_raw2, Inr ex_raw3] 2 4)"
    using C6_seek_landing [OF n(5), of ex_chunked_pb ex_rserv ex_chunked
        "RSNC \<lparr>br_s = [], br_i = 0\<rparr>" "[Inr ex_raw1, Inr ex_raw2, Inr ex_raw3]" 0 0 _ _
        "\<lparr>pb_Type = Data_Raw, pb_Data = [5, 6, 7, 8], pb_Filesize = 4, pb_Blocksizes = []\<rparr>" _ 1]
    by (simp add: ex_chunked_pb_def ex_raw2_def cum_def)
  from a b c d e show ?thesis
    by (intro conjI)
qed

section \<open>Opening a reader on a Metadata node\<close>

text \<open>
  C8, amended. On a Metadata node \<open>NewDagReader\<close> fails with ``incorrectly formatted metadata
  object'' when the node has no link. When it has at least one link, the reader is opened
  on the target of the first link, whatever the number of links: the result is that of
  \<open>NewDagReader\<close> on that child, or \<open>ErrNotFound\<close> when the child is not in the service.
\<close>

theorem C8_metadata_first_link:
  assumes "is_Metadata n"
  shows "(node_Links n = [] \<longrightarrow>
            NewDagReader serv n = Inl (Err ''incorrectly formatted metadata object'')) \<and>
         (\<forall>nm child ls. node_Links n = (nm, child) # ls \<longrightarrow>
            NewDagReader serv n =
              (if child \<in> blocks serv then NewDagReader serv child else Inl ErrNotFound))"
  using assms by (auto simp: NewDagReader.simps [of serv n] is_Metadata_def Get_def split: option.splits)

theorem C8_metadata_first_link_witness:
  "is_Metadata ex_meta2 \<and> node_Links ex_meta2 = [(''file'', ex_chunked), (''other'', ex_raw1)] \<and>
   NewDagReader ex_rserv ex_meta2 = NewDagReader ex_rserv ex_chunked"
proof -
  have m: "is_Metadata ex_meta2"
    by (simp add: is_Metadata_def ex_meta2_def)
  have l: "node_Links ex_meta2 = [(''file'', ex_chunked), (''other'', ex_raw1)]"
    by (simp add: ex_meta2_def)
  have b: "ex_chunked \<in> blocks ex_rserv"
    by (simp add: ex_rserv_def)
  from C8_metadata_first_link [OF m, of ex_rserv] l b
  have "NewDagReader ex_rserv ex_meta2 = NewDagReader ex_rserv ex_chunked"
    by simp
  with m l show ?thesis
    by simp
qed

text \<open>
  C8 as stated requires exactly one link and failure otherwise. The code tests only
  \<open>len(n.Links) == 0\<close>: on a Metadata node with two links it succeeds and reads the file
  behind the first link.
\<close>

theorem C8_metadata_two_links:
  "is_Metadata ex_meta2 \<and> length (node_Links ex_meta2) = 2 \<and>
   NewDagReader ex_rserv ex_meta2 = Inr (newDataFileReader ex_rserv ex_chunked ex_chunked_pb)"
proof -
  have a: "NewDagReader ex_rserv ex_meta2 = NewDagReader ex_rserv ex_chunked"
    by (subst NewDagReader.simps) (simp add: ex_meta2_def ex_rserv_def Get_def)
  have b: "NewDagReader ex_rserv ex_chunked =
      Inr (newDataFileReader ex_rserv ex_chunked ex_chunked_pb)"
    by (subst NewDagReader.simps) (simp add: ex_chunked_def ex_chunked_pb_def)
  show ?thesis
    by (simp add: a b) (simp add: is_Metadata_def ex_meta2_def)
qed

section \<open>Opening and creating files\<close>

lemma is_panic_simps [simp]:
  "is_panic (Panic msg)" "\<not> is_panic (Err msg)" "\<not> is_panic EOF" "\<not> is_panic ErrIsDir"
  "\<not> is_panic ErrUnrecognizedType" "\<not> is_panic ErrInvalidDirLocation" "\<not> is_panic ErrMalformed"
  "\<not> is_panic ErrNotFound" "\<not> is_panic ErrIsDirectory" "\<not> is_panic ErrNoSuch"
  by (simp_all add: is_panic_def)





lemma childDir_absent:
  assumes "h_dirs h d = Some D" and "absent D c"
  shows "childDir h d c = (Inl ErrNoSuch, h)"
  using assms by (simp add: childDir_def absent_def)


text \<open>
  C3. \<open>Open\<close> on a one-element path whose name is not found is claimed to create the file
  when the create bit of the mode is set and to fail with \<open>ErrNoSuch\<close> when it is not. The
  code tests \<open>mode|os.O_CREATE != 0\<close>, which holds for every mode (lemma \<open>or_O_CREATE\<close>), so
  the file is created whatever the mode once \<open>childFile\<close> has returned an error (lemma
  \<open>Open_not_found\<close>) and \<open>return nil, ErrNoSuch\<close> is never reached. The theorem runs the code on the root of \<open>ex_heap\<close>, the absent name
  \<open>c\<close> and the mode \<open>0\<close> (\<open>O_RDONLY\<close>, create bit clear): \<open>childFile\<close> reports \<open>ErrNoSuch\<close>
  and \<open>Open\<close> returns a new file.
\<close>

theorem C3_open_ignores_create_bit:
  "(0 :: int) AND O_CREATE = 0 \<and>
   fst (childFile ex_heap [0] ''c'') = Inl ErrNoSuch \<and>
   fst (Open ex_heap [0] [''c''] 0) = Inr (FileHandle [1, 0] 0)"
  by (simp add: childFile_def ex_heap_def ex_root_def ex_dir_def ex_file_def NewFile_def
      withMode_def O_CREATE_def Let_def)




section \<open>Unlink\<close>

text \<open>
  C10. When the node of a directory \<open>D\<close> has no link named \<open>n\<close>, \<open>Unlink\<close> returns an error
  (\<open>ErrNotFound\<close>, from \<open>RemoveNodeLink\<close>), and the heap it leaves behind has \<open>n\<close> removed
  from both caches of \<open>D\<close>: when \<open>n\<close> was cached, the overlay has changed although the
  operation failed.
\<close>

theorem C10_unlink_missing_link:
  assumes "h_dirs h d = Some D" and "map_of (node_Links (d_node D)) n = None"
  shows "\<exists>h'. Unlink h d n = (Some ErrNotFound, h') \<and>
           h_dirs h' d = Some (D\<lparr>d_childDirs := (d_childDirs D)(n := None),
                                  d_files := (d_files D)(n := None)\<rparr>) \<and>
           (d_childDirs D n \<noteq> None \<or> d_files D n \<noteq> None \<longrightarrow> h' \<noteq> h)"
proof -
  let ?D' = "D\<lparr>d_childDirs := (d_childDirs D)(n := None), d_files := (d_files D)(n := None)\<rparr>"
  let ?h' = "map_dir h d (\<lambda>D. D\<lparr>d_childDirs := (d_childDirs D)(n := None),
                                   d_files := (d_files D)(n := None)\<rparr>)"
  have u: "Unlink h d n = (Some ErrNotFound, ?h')"
    using assms by (simp add: Unlink_def RemoveNodeLink_def Let_def)
  have d': "h_dirs ?h' d = Some ?D'"
    using assms by (simp add: map_dir_def)
  have "?h' \<noteq> h" if "d_childDirs D n \<noteq> None \<or> d_files D n \<noteq> None"
  proof
    assume "?h' = h"
    with d' assms(1) have "?D' = D" by simp
    then have "d_childDirs ?D' n = d_childDirs D n" and "d_files ?D' n = d_files D n"
      by simp_all
    with that show False by simp
  qed
  with u d' show ?thesis by blast
qed

theorem C10_unlink_missing_link_witness:
  "\<exists>h'. Unlink ex_heap_c [0] ''c'' = (Some ErrNotFound, h') \<and>
     h_dirs h' [0] = Some \<lparr>d_node = ex_root, d_name = ''root'', d_childDirs = Map.empty,
                            d_files = Map.empty\<rparr> \<and>
     h' \<noteq> ex_heap_c"
  using C10_unlink_missing_link [of ex_heap_c "[0]"
      "\<lparr>d_node = ex_root, d_name = ''root'', d_childDirs = Map.empty,
         d_files = [''c'' \<mapsto> [1, 0]]\<rparr>" "''c''"]
  by (simp add: ex_heap_c_def ex_root_def)

section \<open>The overlay invariant\<close>


lemma h_dirs_map_dir [simp]:
  "h_dirs (map_dir h d f) a = (if a = d then map_option f (h_dirs h a) else h_dirs h a)"
  by (simp add: map_dir_def)

lemma h_files_map_dir [simp]: "h_files (map_dir h d f) = h_files h"
  by (simp add: map_dir_def)

lemma h_dserv_map_dir [simp]: "h_dserv (map_dir h d f) = h_dserv h"
  by (simp add: map_dir_def)

lemma h_next_map_dir [simp]: "h_next (map_dir h d f) = h_next h"
  by (simp add: map_dir_def)

lemma h_dirs_map_file [simp]: "h_dirs (map_file h a f) = h_dirs h"
  by (simp add: map_file_def)

lemma h_files_map_file [simp]:
  "h_files (map_file h b f) a = (if a = b then map_option f (h_files h a) else h_files h a)"
  by (simp add: map_file_def)

lemma h_dserv_map_file [simp]: "h_dserv (map_file h d f) = h_dserv h"
  by (simp add: map_file_def)



lemma map_of_filter_neq [simp]:
  "map_of (filter (\<lambda>l. fst l \<noteq> n) ls) m = (if m = n then None else map_of ls m)"
  by (induction ls) auto

lemma map_of_clean [simp]:
  "map_of (filter (\<lambda>l. fst l \<noteq> n) ls @ [(n, t)]) m = (if m = n then Some t else map_of ls m)"
  by (auto simp: map_add_def split: option.splits)

lemma childDir_result:
  assumes "childDir h d n = (r, h')"
  shows "(\<exists>e. r = Inl e \<and> h' = h \<and> (\<forall>D. h_dirs h d = Some D \<longrightarrow> d_childDirs D n = None)) \<or>
         (\<exists>a D. r = Inr a \<and> h' = h \<and> h_dirs h d = Some D \<and> d_childDirs D n = Some a) \<or>
         (\<exists>D t. r = Inr (h_next h # d) \<and> h_dirs h d = Some D \<and> d_childDirs D n = None \<and>
            map_of (node_Links (d_node D)) n = Some t \<and> is_dir_node t \<and>
            h' = map_dir (h\<lparr>h_dirs := (h_dirs h)(h_next h # d \<mapsto>
                      \<lparr>d_node = t, d_name = n, d_childDirs = Map.empty, d_files = Map.empty\<rparr>),
                    h_next := Suc (h_next h)\<rparr>) d
                  (\<lambda>D. D\<lparr>d_childDirs := (d_childDirs D)(n \<mapsto> h_next h # d)\<rparr>))"
  using assms
  by (auto simp: childDir_def NewDirectory_def Get_def FromBytes_def is_dir_node_def Let_def
      split: option.splits sum.splits DataType.splits if_splits)

lemma childFile_result:
  assumes "childFile h d n = (r, h')"
  shows "(\<exists>e. r = Inl e \<and> h' = h \<and> (\<forall>D. h_dirs h d = Some D \<longrightarrow> d_files D n = None)) \<or>
         (\<exists>a D. r = Inr a \<and> h' = h \<and> h_dirs h d = Some D \<and> d_files D n = Some a) \<or>
         (\<exists>D t. r = Inr (h_next h # d) \<and> h_dirs h d = Some D \<and> d_files D n = None \<and>
            map_of (node_Links (d_node D)) n = Some t \<and> \<not> is_dir_node t \<and>
            h' = map_dir (h\<lparr>h_files := (h_files h)(h_next h # d \<mapsto> \<lparr>f_node = t, f_name = n\<rparr>),
                    h_next := Suc (h_next h)\<rparr>) d
                  (\<lambda>D. D\<lparr>d_files := (d_files D)(n \<mapsto> h_next h # d)\<rparr>))"
  using assms
  by (auto simp: childFile_def NewFile_def Get_def FromBytes_def is_dir_node_def Let_def
      split: option.splits sum.splits DataType.splits if_splits)

lemma map_of_relink [simp]:
  "map_of (node_Links (relink n nd old)) m = (if m = n then Some nd else map_of (node_Links old) m)"
  by (simp add: relink_def del: map_of_append)

lemma is_dir_node_relink [simp]: "is_dir_node (relink n nd old) = is_dir_node old"
  by (simp add: relink_def is_dir_node_def)










lemma Child_result:
  assumes "Child h d n = (r, h')"
  shows "h_dserv h' = h_dserv h \<and>
    ((\<exists>e. r = Inl e \<and> h' = h \<and>
        (\<not> is_panic e \<longrightarrow> e = ErrNoSuch \<and>
           (\<forall>D. h_dirs h d = Some D \<longrightarrow> d_childDirs D n = None \<and> d_files D n = None))) \<or>
     (\<exists>a D'. r = Inr (DirNode a) \<and> h_dirs h' d = Some D' \<and> d_childDirs D' n = Some a) \<or>
     (\<exists>a D'. r = Inr (FileNode a) \<and> h_dirs h' d = Some D' \<and> d_files D' n = Some a \<and>
        d_childDirs D' n = None))"
proof -
  obtain r1 h1 where c1: "childDir h d n = (r1, h1)"
    by (cases "childDir h d n")
  show ?thesis
  proof (cases r1)
    case (Inr a)
    with assms c1 have "r = Inr (DirNode a)" "h' = h1"
      by (simp_all add: Child_def)
    with childDir_result [OF c1] Inr show ?thesis
      by auto
  next
    case (Inl e)
    with childDir_result [OF c1] have h1: "h1 = h"
      and nc: "\<forall>D. h_dirs h d = Some D \<longrightarrow> d_childDirs D n = None"
      by auto
    show ?thesis
    proof (cases "is_panic e")
      case True
      with assms c1 Inl h1 have "r = Inl e" "h' = h"
        by (simp_all add: Child_def)
      with True show ?thesis
        by simp
    next
      case False
      obtain r2 h2 where c2: "childFile h d n = (r2, h2)"
        by (cases "childFile h d n")
      show ?thesis
      proof (cases r2)
        case (Inl e')
        with childFile_result [OF c2] have h2: "h2 = h"
          and nf: "\<forall>D. h_dirs h d = Some D \<longrightarrow> d_files D n = None"
          by auto
        from assms c1 c2 \<open>r1 = Inl e\<close> h1 False Inl
        have "(r = Inl e' \<and> is_panic e') \<or> r = Inl ErrNoSuch" "h' = h2"
          by (auto simp: Child_def split: if_splits)
        with h2 nc nf show ?thesis
          by auto
      next
        case (Inr a)
        with assms c1 c2 \<open>r1 = Inl e\<close> h1 False have "r = Inr (FileNode a)" "h' = h2"
          by (simp_all add: Child_def)
        with childFile_result [OF c2] Inr nc show ?thesis
          by auto
      qed
    qed
  qed
qed


lemma closeChild_unfold:
  "closeChild h (k # p) n =
     (case Child h (k # p) n of
        (Inl e, h1) \<Rightarrow> (Some e, h1)
      | (Inr child, h1) \<Rightarrow>
          (case GetNode h1 child of
             Inl e \<Rightarrow> (Some e, h1)
           | Inr nd \<Rightarrow>
               (case add_err (h_dserv h1) nd of
                  Some e \<Rightarrow> (Some e, h1)
                | None \<Rightarrow>
                    (case h_dirs h1 (k # p) of
                       None \<Rightarrow> (Some nil_deref,
                                 h1\<lparr>h_dserv := (h_dserv h1)\<lparr>blocks := insert nd (blocks (h_dserv h1))\<rparr>\<rparr>)
                     | Some D \<Rightarrow>
                         closeChild
                           (map_dir (h1\<lparr>h_dserv := (h_dserv h1)\<lparr>blocks := insert nd (blocks (h_dserv h1))\<rparr>\<rparr>)
                              (k # p) (\<lambda>X. X\<lparr>d_node := relink n nd (d_node D)\<rparr>))
                           p (d_name D)))))"
proof -
  have m: "map_dir (map_dir g d (\<lambda>X. X\<lparr>d_node := a\<rparr>)) d (\<lambda>X. X\<lparr>d_node := b\<rparr>)
      = map_dir g d (\<lambda>X. X\<lparr>d_node := b\<rparr>)" for g d a b
    by (auto simp: map_dir_def fun_eq_iff map_option_case split: option.splits)
  have f: "filter (\<lambda>l. fst l \<noteq> n) (filter (\<lambda>l. fst l \<noteq> n) ls) = filter (\<lambda>l. fst l \<noteq> n) ls"
    for ls :: "(string \<times> node) list"
    by simp
  show ?thesis
    by (auto simp: dserv_Add_def RemoveNodeLink_def AddNodeLinkClean_def relink_def Let_def m
        split: prod.splits sum.splits option.splits)
qed

declare closeChild.simps(2) [simp del]

lemma dir_ok_dserv [simp]: "dir_ok (h\<lparr>h_dserv := x\<rparr>) D = dir_ok h D"
  by (simp add: dir_ok_def)

lemma overlay_inv_dserv [simp]: "overlay_inv (h\<lparr>h_dserv := x\<rparr>) = overlay_inv h"
  by (simp add: overlay_inv_def)















lemma dir_ok_name [simp]: "dir_ok h (D\<lparr>d_name := x\<rparr>) = dir_ok h D"
  by (simp add: dir_ok_def)

lemma is_dir_node_filter [simp]:
  "is_dir_node (Node (node_Data old) ls) = is_dir_node old"
  by (simp add: is_dir_node_def)



lemma overlay_inv_new_root:
  assumes "is_dir_node nd"
  shows "overlay_inv (snd (NewDirectory
    \<lparr>h_dserv = serv, h_dirs = Map.empty, h_files = Map.empty, h_next = 0\<rparr> name nd []))"
  using assms by (auto simp: overlay_inv_def dir_ok_def NewDirectory_def Let_def split: if_splits)


lemma closeChild_blocks_mono:
  "closeChild h a n = (r, h') \<Longrightarrow> blocks (h_dserv h) \<subseteq> blocks (h_dserv h')"
proof (induction a arbitrary: h n r h')
  case Nil
  then show ?case by simp
next
  case (Cons k p)
  obtain rc h1 where c: "Child h (k # p) n = (rc, h1)"
    by (cases "Child h (k # p) n")
  from Child_result [OF c] have s: "h_dserv h1 = h_dserv h" by simp
  show ?case
  proof (cases rc)
    case (Inl e)
    with Cons.prems c s show ?thesis by (simp add: closeChild_unfold)
  next
    case (Inr child)
    show ?thesis
    proof (cases "GetNode h1 child")
      case (Inl e)
      with Cons.prems c s Inr show ?thesis by (simp add: closeChild_unfold)
    next
      case nd: (Inr nd)
      show ?thesis
      proof (cases "add_err (h_dserv h1) nd")
        case (Some e)
        with Cons.prems c s Inr nd show ?thesis by (simp add: closeChild_unfold)
      next
        case None
        show ?thesis
        proof (cases "h_dirs h1 (k # p)")
          case nodir: None
          with Cons.prems c s Inr nd None show ?thesis by (auto simp: closeChild_unfold)
        next
          case (Some D)
          let ?h2 = "map_dir (h1\<lparr>h_dserv := (h_dserv h1)\<lparr>blocks := insert nd (blocks (h_dserv h1))\<rparr>\<rparr>)
                              (k # p) (\<lambda>X. X\<lparr>d_node := relink n nd (d_node D)\<rparr>)"
          from Cons.prems c Inr nd None Some
          have "closeChild ?h2 p (d_name D) = (r, h')"
            by (simp add: closeChild_unfold)
          from Cons.IH [OF this] s show ?thesis by auto
        qed
      qed
    qed
  qed
qed

section \<open>The upward close\<close>

text \<open>
  C2. \<open>closeChild n\<close> on the directory at the address \<open>k # p\<close> (its parent is at \<open>p\<close>) succeeds
  exactly when: \<open>Child n\<close> finds the child, which is the overlay the directory has cached
  under \<open>n\<close>; \<open>nd\<close> is the current node of that child, the \<open>node\<close> field of the child
  directory or of the child file in the heap; the service accepts \<open>nd\<close>, which is then
  among its blocks; the node of the directory is replaced by \<open>relink n nd\<close> of it, in which
  every link named \<open>n\<close> of the old node is gone (with no failure when there was none),
  exactly one link is named \<open>n\<close>, it leads to \<open>nd\<close>, and the links of the other names are as
  before; and \<open>closeChild\<close> of the parent for the name of the directory, run on that heap,
  succeeds with the final heap.
\<close>

theorem C2_closeChild_steps:
  "closeChild h (k # p) n = (None, h') \<longleftrightarrow>
     (\<exists>child h1 nd D.
        Child h (k # p) n = (Inr child, h1) \<and>
        h_dirs h1 (k # p) = Some D \<and>
        ((\<exists>a C. child = DirNode a \<and> d_childDirs D n = Some a \<and>
                 h_dirs h1 a = Some C \<and> nd = d_node C) \<or>
         (\<exists>a F. child = FileNode a \<and> d_files D n = Some a \<and> d_childDirs D n = None \<and>
                 h_files h1 a = Some F \<and> nd = f_node F)) \<and>
        add_err (h_dserv h1) nd = None \<and>
        closeChild
          (map_dir (h1\<lparr>h_dserv := (h_dserv h1)\<lparr>blocks := insert nd (blocks (h_dserv h1))\<rparr>\<rparr>)
             (k # p) (\<lambda>X. X\<lparr>d_node := relink n nd (d_node D)\<rparr>))
          p (d_name D) = (None, h') \<and>
        nd \<in> blocks (h_dserv h') \<and>
        map_of (node_Links (relink n nd (d_node D))) n = Some nd \<and>
        length (filter (\<lambda>l. fst l = n) (node_Links (relink n nd (d_node D)))) = 1 \<and>
        (\<forall>m. m \<noteq> n \<longrightarrow>
           map_of (node_Links (relink n nd (d_node D))) m = map_of (node_Links (d_node D)) m))"
  (is "?L \<longleftrightarrow> ?R")
proof
  assume L: ?L
  obtain rc h1 where c: "Child h (k # p) n = (rc, h1)"
    by (cases "Child h (k # p) n")
  from L c obtain child where rc: "rc = Inr child"
    by (cases rc) (auto simp: closeChild_unfold)
  from L c rc obtain nd where nd: "GetNode h1 child = Inr nd"
    by (cases "GetNode h1 child") (auto simp: closeChild_unfold)
  from L c rc nd have add: "add_err (h_dserv h1) nd = None"
    by (cases "add_err (h_dserv h1) nd") (auto simp: closeChild_unfold)
  from L c rc nd add obtain D where D: "h_dirs h1 (k # p) = Some D"
    by (cases "h_dirs h1 (k # p)") (auto simp: closeChild_unfold)
  let ?h2 = "map_dir (h1\<lparr>h_dserv := (h_dserv h1)\<lparr>blocks := insert nd (blocks (h_dserv h1))\<rparr>\<rparr>)
                      (k # p) (\<lambda>X. X\<lparr>d_node := relink n nd (d_node D)\<rparr>)"
  from L c rc nd add D have rec: "closeChild ?h2 p (d_name D) = (None, h')"
    by (simp add: closeChild_unfold)
  from closeChild_blocks_mono [OF rec] have bl: "nd \<in> blocks (h_dserv h')"
    by auto
  have one: "length (filter (\<lambda>l. fst l = n) (node_Links (relink n nd (d_node D)))) = 1"
    by (simp add: relink_def)
  from Child_result [OF c] rc D
  have cached: "(\<exists>a. child = DirNode a \<and> d_childDirs D n = Some a) \<or>
      (\<exists>a. child = FileNode a \<and> d_files D n = Some a \<and> d_childDirs D n = None)"
    by auto
  from nd have obj: "(\<exists>a C. child = DirNode a \<and> h_dirs h1 a = Some C \<and> nd = d_node C) \<or>
      (\<exists>a F. child = FileNode a \<and> h_files h1 a = Some F \<and> nd = f_node F)"
    by (auto simp: GetNode_def split: fsnode.splits option.splits)
  from cached obj
  have kind: "(\<exists>a C. child = DirNode a \<and> d_childDirs D n = Some a \<and>
                 h_dirs h1 a = Some C \<and> nd = d_node C) \<or>
         (\<exists>a F. child = FileNode a \<and> d_files D n = Some a \<and> d_childDirs D n = None \<and>
                 h_files h1 a = Some F \<and> nd = f_node F)"
    by auto
  have "map_of (node_Links (relink n nd (d_node D))) n = Some nd"
    and "\<forall>m. m \<noteq> n \<longrightarrow>
           map_of (node_Links (relink n nd (d_node D))) m = map_of (node_Links (d_node D)) m"
    by simp_all
  with c rc D kind add rec bl one show ?R
    by blast
next
  assume ?R
  then obtain child h1 nd D where c: "Child h (k # p) n = (Inr child, h1)"
    and D: "h_dirs h1 (k # p) = Some D"
    and kind: "(\<exists>a C. child = DirNode a \<and> d_childDirs D n = Some a \<and>
                 h_dirs h1 a = Some C \<and> nd = d_node C) \<or>
         (\<exists>a F. child = FileNode a \<and> d_files D n = Some a \<and> d_childDirs D n = None \<and>
                 h_files h1 a = Some F \<and> nd = f_node F)"
    and add: "add_err (h_dserv h1) nd = None"
    and rec: "closeChild
          (map_dir (h1\<lparr>h_dserv := (h_dserv h1)\<lparr>blocks := insert nd (blocks (h_dserv h1))\<rparr>\<rparr>)
             (k # p) (\<lambda>X. X\<lparr>d_node := relink n nd (d_node D)\<rparr>))
          p (d_name D) = (None, h')"
    by blast
  from kind have "GetNode h1 child = Inr nd"
    by (auto simp: GetNode_def)
  with c D add rec show ?L
    by (simp add: closeChild_unfold)
qed


theorem C2_closeChild_steps_witness:
  "closeChild ex_heap_ac [1, 0] ''c'' = (None, snd (closeChild ex_heap_ac [1, 0] ''c'')) \<and>
   Child ex_heap_ac [1, 0] ''c'' = (Inr (FileNode [2, 1, 0]), ex_heap_ac) \<and>
   map_option f_node (h_files ex_heap_ac [2, 1, 0]) = Some (Node (FilePBData [] 0) []) \<and>
   Node (FilePBData [] 0) [] \<in> blocks (h_dserv (snd (closeChild ex_heap_ac [1, 0] ''c''))) \<and>
   closeChild
     (map_dir (ex_heap_ac\<lparr>h_dserv := (h_dserv ex_heap_ac)\<lparr>blocks :=
                  insert (Node (FilePBData [] 0) []) (blocks (h_dserv ex_heap_ac))\<rparr>\<rparr>)
        [1, 0] (\<lambda>X. X\<lparr>d_node := relink ''c'' (Node (FilePBData [] 0) []) ex_dir\<rparr>))
     [0] ''a'' = (None, snd (closeChild ex_heap_ac [1, 0] ''c'')) \<and>
   fst (Child
     (map_dir (ex_heap_ac\<lparr>h_dserv := (h_dserv ex_heap_ac)\<lparr>blocks :=
                  insert (Node (FilePBData [] 0) []) (blocks (h_dserv ex_heap_ac))\<rparr>\<rparr>)
        [1, 0] (\<lambda>X. X\<lparr>d_node := relink ''c'' (Node (FilePBData [] 0) []) ex_dir\<rparr>))
     [0] ''a'') = Inr (DirNode [1, 0]) \<and>
   Node FolderPBData [(''c'', Node (FilePBData [] 0) [])]
     \<in> blocks (h_dserv (snd (closeChild ex_heap_ac [1, 0] ''c''))) \<and>
   map_option d_node (h_dirs (snd (closeChild ex_heap_ac [1, 0] ''c'')) [1, 0])
     = Some (Node FolderPBData [(''c'', Node (FilePBData [] 0) [])]) \<and>
   map_option d_node (h_dirs (snd (closeChild ex_heap_ac [1, 0] ''c'')) [0])
     = Some (Node FolderPBData
         [(''x'', ex_file), (''a'', Node FolderPBData [(''c'', Node (FilePBData [] 0) [])])])"
proof -
  let ?h' = "snd (closeChild ex_heap_ac [1, 0] ''c'')"
  let ?nd = "Node (FilePBData [] 0) []"
  let ?nd2 = "Node FolderPBData [(''c'', ?nd)]"
  let ?D = "\<lparr>d_node = ex_dir, d_name = ''a'', d_childDirs = Map.empty,
               d_files = [''c'' \<mapsto> [2, 1, 0]]\<rparr>"
  let ?h2 = "map_dir (ex_heap_ac\<lparr>h_dserv := (h_dserv ex_heap_ac)\<lparr>blocks :=
                  insert ?nd (blocks (h_dserv ex_heap_ac))\<rparr>\<rparr>)
        [1, 0] (\<lambda>X. X\<lparr>d_node := relink ''c'' ?nd ex_dir\<rparr>)"
  have "fst (closeChild ex_heap_ac [1, 0] ''c'') = None"
    by code_simp
  then have e: "closeChild ex_heap_ac [1, 0] ''c'' = (None, ?h')"
    by (simp add: prod_eq_iff)
  have ch: "Child ex_heap_ac [1, 0] ''c'' = (Inr (FileNode [2, 1, 0]), ex_heap_ac)"
    by (simp add: Child_def childDir_def childFile_def ex_heap_ac_def ex_dir_def)
  have fo: "h_files ex_heap_ac [2, 1, 0] = Some \<lparr>f_node = ?nd, f_name = ''c''\<rparr>"
    by (simp add: ex_heap_ac_def)
  have D: "h_dirs ex_heap_ac [1, 0] = Some ?D"
    by (simp add: ex_heap_ac_def)
  from C2_closeChild_steps [THEN iffD1, OF e]
  obtain child h1 nd D where c: "Child ex_heap_ac [1, 0] ''c'' = (Inr child, h1)"
    and hd: "h_dirs h1 [1, 0] = Some D"
    and kind: "(\<exists>a C. child = DirNode a \<and> d_childDirs D ''c'' = Some a \<and>
                 h_dirs h1 a = Some C \<and> nd = d_node C) \<or>
         (\<exists>a F. child = FileNode a \<and> d_files D ''c'' = Some a \<and> d_childDirs D ''c'' = None \<and>
                 h_files h1 a = Some F \<and> nd = f_node F)"
    and rec: "closeChild
          (map_dir (h1\<lparr>h_dserv := (h_dserv h1)\<lparr>blocks := insert nd (blocks (h_dserv h1))\<rparr>\<rparr>)
             [1, 0] (\<lambda>X. X\<lparr>d_node := relink ''c'' nd (d_node D)\<rparr>))
          [0] (d_name D) = (None, ?h')"
    and bl: "nd \<in> blocks (h_dserv ?h')"
    by (elim exE conjE) (rule that, assumption+)
  from c ch have 1: "child = FileNode [2, 1, 0]" "h1 = ex_heap_ac"
    by simp_all
  from kind fo have 2: "nd = ?nd"
    unfolding 1 by auto
  from hd D 1 have 3: "D = ?D"
    by simp
  from rec have rec': "closeChild ?h2 [0] ''a'' = (None, ?h')"
    unfolding 1 2 3 by simp
  have ch2: "fst (Child ?h2 [0] ''a'') = Inr (DirNode [1, 0])"
    by (simp add: Child_def childDir_def ex_heap_ac_def)
  have dn2: "h_dirs ?h2 [1, 0] = Some (?D\<lparr>d_node := relink ''c'' ?nd ex_dir\<rparr>)"
    using D by simp
  have rl: "relink ''c'' ?nd ex_dir = ?nd2"
    by (simp add: relink_def ex_dir_def)
  from C2_closeChild_steps [THEN iffD1, OF rec']
  obtain child2 h12 nd2 D2 where c2: "Child ?h2 [0] ''a'' = (Inr child2, h12)"
    and hd2: "h_dirs h12 [0] = Some D2"
    and kind2: "(\<exists>a C. child2 = DirNode a \<and> d_childDirs D2 ''a'' = Some a \<and>
                 h_dirs h12 a = Some C \<and> nd2 = d_node C) \<or>
         (\<exists>a F. child2 = FileNode a \<and> d_files D2 ''a'' = Some a \<and> d_childDirs D2 ''a'' = None \<and>
                 h_files h12 a = Some F \<and> nd2 = f_node F)"
    and bl2: "nd2 \<in> blocks (h_dserv ?h')"
    by (elim exE conjE) (rule that, assumption+)
  from c2 ch2 have 4: "child2 = DirNode [1, 0]"
    by simp
  from c2 have "h12 = snd (Child ?h2 [0] ''a'')"
    by simp
  also have "\<dots> = ?h2"
    by (simp add: Child_def childDir_def ex_heap_ac_def)
  finally have 5: "h12 = ?h2" .
  from kind2 dn2 have 6: "nd2 = ?nd2"
    unfolding 4 5 by (auto simp: rl)
  have n1: "map_option d_node (h_dirs ?h' [1, 0]) = Some ?nd2"
    by code_simp
  have n0: "map_option d_node (h_dirs ?h' [0]) = Some (Node FolderPBData [(''x'', ex_file), (''a'', ?nd2)])"
    by code_simp
  from e ch fo bl rec' ch2 bl2 n1 n0 show ?thesis
    unfolding 2 6 by simp
qed

section \<open>Rename\<close>

text \<open>
  C4. After a successful \<open>RenameEntry "x" "y"\<close> of a file, \<open>Child "x"\<close> is claimed to fail with
  \<open>ErrNoSuch\<close>. In the file branch the code runs \<open>delete(d.childDirs, oldname)\<close> where the
  directory branch runs the same statement on its own cache: the entry \<open>files[oldname]\<close>
  stays. The theorem runs the code on the root of \<open>ex_heap\<close>, whose node links \<open>x\<close> to a
  file: the rename succeeds, the link \<open>x\<close> is gone from the node (\<open>List\<close> gives \<open>a\<close>, \<open>y\<close>),
  \<open>Child "y"\<close> returns the file with its node unchanged, and \<open>Child "x"\<close> returns the same
  file instead of failing.
\<close>

theorem C4_rename_keeps_old_name:
  "fst (RenameEntry ex_heap [0] ''x'' ''y'') = None \<and>
   fst (Child (snd (RenameEntry ex_heap [0] ''x'' ''y'')) [0] ''x'') = Inr (FileNode [1, 0]) \<and>
   fst (Child (snd (RenameEntry ex_heap [0] ''x'' ''y'')) [0] ''y'') = Inr (FileNode [1, 0]) \<and>
   GetNode (snd (RenameEntry ex_heap [0] ''x'' ''y'')) (FileNode [1, 0]) = Inr ex_file \<and>
   List (snd (RenameEntry ex_heap [0] ''x'' ''y'')) [0] = Inr [''a'', ''y'']"
  by code_simp

section \<open>Disjoint caches\<close>




end
